theory Spec2Isabelle
  imports Main "HOL-Library.AList"
begin

section \<open>Page-replacement policies: LRU, Clock and Random\<close>

text \<open>
  The three classes \<open>LruMMU\<close>, \<open>ClockMMU\<close> and \<open>RandMMU\<close> keep a bounded resident set
  of page frames and three counters. Each object is modelled as a record, each method as
  a function from the object before the call to the object after it.

  Python integers are unbounded, so page numbers, counters, the frame count and the clock
  hand are of type \<open>int\<close>. The diagnostic \<open>print\<close> calls guarded by \<open>self.debug\<close> write
  to standard output only and are not modelled; the flag itself is kept.
\<close>

subsection \<open>Exceptions\<close>

text \<open>
  An exception leaves the object as it was mutated up to the raise. The result of a method
  that can raise is therefore \<open>Inl (e, s)\<close>, the exception together with the object at
  that moment, or \<open>Inr s\<close>, the object after a normal return.
\<close>

datatype error = ValueError | IndexError | ZeroDivisionError

type_synonym 's result = "(error \<times> 's) + 's"

definition final :: "'s result \<Rightarrow> 's" where
  "final r = (case r of Inl (e, s) \<Rightarrow> s | Inr s \<Rightarrow> s)"

subsection \<open>Frames and objects\<close>

text \<open>
  A frame is a Python dict: \<open>{"dirty", "last_used"}\<close> for LRU,
  \<open>{"page", "dirty", "reference"}\<close> for Clock, \<open>{"dirty"}\<close> for Random.
  The reference bit is the integer 0 or 1, as in the source.
\<close>

record frame =
  dirty :: bool

record lru_frame = frame +
  last_used :: int

record clock_frame = frame +
  page :: int
  reference :: int

text \<open>
  The attributes shared by the three classes, with the type of \<open>self.frames\<close> left open:
  a dict keyed by page number for LRU and Random, a list of frames for Clock. A dict is an
  association list in insertion order, the order in which Python iterates over it.
\<close>

record 'f mmu =
  number_frames :: int
  frames :: 'f
  page_faults :: int
  disk_reads :: int
  disk_writes :: int
  debug :: bool

record lru_mmu = "(int \<times> lru_frame) list mmu" +
  recency_tracker :: int

record clock_mmu = "clock_frame list mmu" +
  clock_hand :: int

type_synonym rand_mmu = "(int \<times> frame) list mmu"

text \<open>
  One event of the trace that the driver feeds to a policy: it calls \<open>read_memory\<close> or
  \<open>write_memory\<close> with the page number.
\<close>

datatype access = Read int | Write int

fun page_of :: "access \<Rightarrow> int" where
  "page_of (Read p) = p"
| "page_of (Write p) = p"

fun is_write_of :: "access \<Rightarrow> bool" where
  "is_write_of (Read p) = False"
| "is_write_of (Write p) = True"

subsection \<open>Methods shared by the three classes\<close>

definition set_debug :: "('f, 'z) mmu_scheme \<Rightarrow> ('f, 'z) mmu_scheme" where
  "set_debug self = self\<lparr>debug := True\<rparr>"

definition reset_debug :: "('f, 'z) mmu_scheme \<Rightarrow> ('f, 'z) mmu_scheme" where
  "reset_debug self = self\<lparr>debug := False\<rparr>"

definition get_total_disk_reads :: "('f, 'z) mmu_scheme \<Rightarrow> int" where
  "get_total_disk_reads self = disk_reads self"

definition get_total_disk_writes :: "('f, 'z) mmu_scheme \<Rightarrow> int" where
  "get_total_disk_writes self = disk_writes self"

definition get_total_page_faults :: "('f, 'z) mmu_scheme \<Rightarrow> int" where
  "get_total_page_faults self = page_faults self"

subsection \<open>Python built-ins used by the policies\<close>

text \<open>
  \<open>min(xs, key=k)\<close> keeps the first element and replaces it only by a later element whose
  key is strictly smaller, so the first of several minimal elements wins; on an empty
  iterable it raises \<open>ValueError\<close> (\<open>None\<close> here).
\<close>

fun py_min :: "('a \<Rightarrow> int) \<Rightarrow> 'a list \<Rightarrow> 'a option" where
  "py_min k [] = None"
| "py_min k (x # xs) = Some (fold (\<lambda>y best. if k y < k best then y else best) xs x)"

text \<open>
  \<open>xs[i]\<close> on a list: a negative index counts from the end, an index out of range raises
  \<open>IndexError\<close> (\<open>None\<close> here). \<open>py_slot\<close> is the position that \<open>xs[i]\<close> denotes.
\<close>

definition py_slot :: "'a list \<Rightarrow> int \<Rightarrow> nat option" where
  "py_slot xs i =
     (let n = int (length xs); j = (if i < 0 then n + i else i)
      in if 0 \<le> j \<and> j < n then Some (nat j) else None)"

text \<open>
  \<open>random.choice(xs)\<close> raises \<open>IndexError\<close> on an empty list and otherwise returns
  \<open>xs[i]\<close> for an index \<open>i\<close> below \<open>len(xs)\<close> taken from the generator. The generator is
  an explicit input: \<open>draw\<close> is the number it delivers, reduced into the range of the
  list, so every element can be chosen and every draw chooses one.
\<close>

definition random_choice :: "nat \<Rightarrow> 'a list \<Rightarrow> 'a option" where
  "random_choice draw xs = (if xs = [] then None else Some (xs ! (draw mod length xs)))"

subsection \<open>LruMMU\<close>

definition lru_init :: "int \<Rightarrow> lru_mmu" where
  "lru_init n =
     \<lparr>number_frames = n, frames = [], page_faults = 0, disk_reads = 0, disk_writes = 0,
      debug = False, recency_tracker = 0\<rparr>"

text \<open>\<open>self.frames[page_number] = {"dirty": is_write, "last_used": self.recency_tracker}\<close>\<close>

definition lru_load :: "int \<Rightarrow> bool \<Rightarrow> lru_mmu \<Rightarrow> lru_mmu" where
  "lru_load page_number is_write self =
     self\<lparr>frames := AList.update page_number
        \<lparr>dirty = is_write, last_used = recency_tracker self\<rparr> (frames self)\<rparr>"

text \<open>\<open>min(self.frames, key=lambda p: self.frames[p]["last_used"])\<close>\<close>

definition lru_removing_page :: "lru_mmu \<Rightarrow> int option" where
  "lru_removing_page self =
     py_min (\<lambda>p. last_used (the (map_of (frames self) p))) (map fst (frames self))"

definition lru_access_memory :: "int \<Rightarrow> bool \<Rightarrow> lru_mmu \<Rightarrow> lru_mmu result" where
  "lru_access_memory page_number is_write self =
     (let s1 = self\<lparr>recency_tracker := recency_tracker self + 1\<rparr> in
      if page_number \<in> set (map fst (frames s1)) then
        let s2 = (if is_write
                  then s1\<lparr>frames := AList.map_entry page_number
                         (\<lambda>f. f\<lparr>dirty := True\<rparr>) (frames s1)\<rparr>
                  else s1)
        in Inr (s2\<lparr>frames := AList.map_entry page_number
                  (\<lambda>f. f\<lparr>last_used := recency_tracker s2\<rparr>) (frames s2)\<rparr>)
      else
        let s2 = s1\<lparr>page_faults := page_faults s1 + 1, disk_reads := disk_reads s1 + 1\<rparr> in
        if int (length (frames s2)) \<ge> number_frames s2 then
          (case lru_removing_page s2 of
             None \<Rightarrow> Inl (ValueError, s2)
           | Some removing_page \<Rightarrow>
               let removing_page_dirty = dirty (the (map_of (frames s2) removing_page));
                   s3 = (if removing_page_dirty
                         then s2\<lparr>disk_writes := disk_writes s2 + 1\<rparr> else s2);
                   s4 = s3\<lparr>frames := AList.delete removing_page (frames s3)\<rparr>
               in Inr (lru_load page_number is_write s4))
        else Inr (lru_load page_number is_write s2))"

definition lru_read_memory :: "int \<Rightarrow> lru_mmu \<Rightarrow> lru_mmu result" where
  "lru_read_memory page_number self = lru_access_memory page_number False self"

definition lru_write_memory :: "int \<Rightarrow> lru_mmu \<Rightarrow> lru_mmu result" where
  "lru_write_memory page_number self = lru_access_memory page_number True self"

text \<open>The driver's loop over the trace; an exception ends it.\<close>

fun lru_do :: "access \<Rightarrow> lru_mmu \<Rightarrow> lru_mmu result" where
  "lru_do (Read p) self = lru_read_memory p self"
| "lru_do (Write p) self = lru_write_memory p self"

fun lru_run :: "lru_mmu \<Rightarrow> access list \<Rightarrow> lru_mmu result" where
  "lru_run self [] = Inr self"
| "lru_run self (a # as) =
     (case lru_do a self of Inl e \<Rightarrow> Inl e | Inr s \<Rightarrow> lru_run s as)"

definition lru_pages :: "lru_mmu \<Rightarrow> int set" where
  "lru_pages self = set (map fst (frames self))"

subsection \<open>ClockMMU\<close>

definition clock_init :: "int \<Rightarrow> clock_mmu" where
  "clock_init n =
     \<lparr>number_frames = n, frames = [], page_faults = 0, disk_reads = 0, disk_writes = 0,
      debug = False, clock_hand = 0\<rparr>"

text \<open>
  One round of the \<open>while True\<close> loop of \<open>find_removing_page\<close>: it raises, returns the
  index of the frame to remove, or goes round again. \<open>x % 0\<close> raises
  \<open>ZeroDivisionError\<close>; otherwise Python's \<open>%\<close> is \<open>mod\<close> on \<open>int\<close>, the result having
  the sign of the divisor.
\<close>

datatype sweep = Raised error clock_mmu | Returned int clock_mmu | Again clock_mmu

definition find_removing_page_body :: "clock_mmu \<Rightarrow> sweep" where
  "find_removing_page_body self =
     (case py_slot (frames self) (clock_hand self) of
        None \<Rightarrow> Raised IndexError self
      | Some i \<Rightarrow>
          let frame = frames self ! i in
          if reference frame = 0 then
            let removing_page_index = clock_hand self in
            if number_frames self = 0 then Raised ZeroDivisionError self
            else Returned removing_page_index
                   (self\<lparr>clock_hand := (clock_hand self + 1) mod number_frames self\<rparr>)
          else
            let s1 = self\<lparr>frames := (frames self)[i := frame\<lparr>reference := 0\<rparr>]\<rparr> in
            if number_frames s1 = 0 then Raised ZeroDivisionError s1
            else Again (s1\<lparr>clock_hand := (clock_hand s1 + 1) mod number_frames s1\<rparr>))"

text \<open>The frames whose reference bit is set: every round that goes on clears one.\<close>

definition referenced :: "clock_mmu \<Rightarrow> nat" where
  "referenced self = length (filter (\<lambda>f. reference f \<noteq> 0) (frames self))"

lemma filter_update_less:
  "i < length xs \<Longrightarrow> P (xs ! i) \<Longrightarrow> \<not> P y \<Longrightarrow>
   length (filter P (xs[i := y])) < length (filter P xs)"
proof (induction xs arbitrary: i)
  case Nil
  then show ?case by simp
next
  case (Cons x xs)
  show ?case
  proof (cases i)
    case 0
    with Cons.prems show ?thesis
      by (simp add: le_imp_less_Suc)
  next
    case (Suc j)
    with Cons.prems have "length (filter P (xs[j := y])) < length (filter P xs)"
      by (intro Cons.IH) simp_all
    with Suc show ?thesis by simp
  qed
qed

lemma py_slot_Some: "py_slot xs i = Some j \<Longrightarrow> j < length xs"
  by (auto simp: py_slot_def Let_def split: if_splits)

lemma body_Again_referenced:
  assumes "find_removing_page_body s = Again s'"
  shows "referenced s' < referenced s"
proof -
  from assms obtain i where i: "py_slot (frames s) (clock_hand s) = Some i"
    and r: "reference (frames s ! i) \<noteq> 0"
    and f: "frames s' = (frames s)[i := (frames s ! i)\<lparr>reference := 0\<rparr>]"
    by (auto simp: find_removing_page_body_def Let_def split: option.splits if_splits)
  from i have "i < length (frames s)" by (rule py_slot_Some)
  with r f show ?thesis
    unfolding referenced_def
    by (simp add: filter_update_less [where P = "\<lambda>f. reference f \<noteq> 0"])
qed

function find_removing_page :: "clock_mmu \<Rightarrow> (error \<times> clock_mmu) + (int \<times> clock_mmu)" where
  "find_removing_page self =
     (case find_removing_page_body self of
        Raised e s \<Rightarrow> Inl (e, s)
      | Returned removing_page_index s \<Rightarrow> Inr (removing_page_index, s)
      | Again s \<Rightarrow> find_removing_page s)"
  by pat_completeness auto
termination
  by (relation "measure referenced") (simp_all add: body_Again_referenced)

declare find_removing_page.simps [simp del]

text \<open>The slots that one call of \<open>find_removing_page\<close> inspects, in order.\<close>

function inspected :: "clock_mmu \<Rightarrow> int list" where
  "inspected self =
     clock_hand self #
       (case find_removing_page_body self of
          Raised e s \<Rightarrow> []
        | Returned removing_page_index s \<Rightarrow> []
        | Again s \<Rightarrow> inspected s)"
  by pat_completeness auto
termination
  by (relation "measure referenced") (simp_all add: body_Again_referenced)

declare inspected.simps [simp del]

text \<open>
  The object at the start of each round of the loop, in order: the first is the object that
  \<open>find_removing_page\<close> is called on, the last is the one whose slot under the hand is
  returned. The slot inspected in a round is the one under the hand of its object.
\<close>

function sweep_states :: "clock_mmu \<Rightarrow> clock_mmu list" where
  "sweep_states self =
     self #
       (case find_removing_page_body self of
          Raised e s \<Rightarrow> []
        | Returned removing_page_index s \<Rightarrow> []
        | Again s \<Rightarrow> sweep_states s)"
  by pat_completeness auto
termination
  by (relation "measure referenced") (simp_all add: body_Again_referenced)

declare sweep_states.simps [simp del]

text \<open>
  The \<open>for frame in self.frames\<close> loop of \<open>access_memory\<close>: the first frame holding the
  page is marked and the method returns; \<open>None\<close> when the loop ends without a match.
\<close>

fun clock_hit :: "int \<Rightarrow> bool \<Rightarrow> clock_frame list \<Rightarrow> clock_frame list option" where
  "clock_hit page_number is_write [] = None"
| "clock_hit page_number is_write (frame # fs) =
     (if page frame = page_number then
        let f1 = frame\<lparr>reference := 1\<rparr>;
            f2 = (if is_write then f1\<lparr>dirty := True\<rparr> else f1)
        in Some (f2 # fs)
      else map_option (Cons frame) (clock_hit page_number is_write fs))"

definition new_frame :: "int \<Rightarrow> bool \<Rightarrow> clock_frame" where
  "new_frame page_number is_write = \<lparr>dirty = is_write, page = page_number, reference = 1\<rparr>"

definition clock_access_memory :: "int \<Rightarrow> bool \<Rightarrow> clock_mmu \<Rightarrow> clock_mmu result" where
  "clock_access_memory page_number is_write self =
     (case clock_hit page_number is_write (frames self) of
        Some fs \<Rightarrow> Inr (self\<lparr>frames := fs\<rparr>)
      | None \<Rightarrow>
          let s1 = self\<lparr>page_faults := page_faults self + 1,
                        disk_reads := disk_reads self + 1\<rparr> in
          if int (length (frames s1)) < number_frames s1 then
            Inr (s1\<lparr>frames := frames s1 @ [new_frame page_number is_write]\<rparr>)
          else
            (case find_removing_page s1 of
               Inl (e, s2) \<Rightarrow> Inl (e, s2)
             | Inr (removing_page_index, s2) \<Rightarrow>
                 (case py_slot (frames s2) removing_page_index of
                    None \<Rightarrow> Inl (IndexError, s2)
                  | Some i \<Rightarrow>
                      let removing_page = frames s2 ! i;
                          s3 = (if dirty removing_page
                                then s2\<lparr>disk_writes := disk_writes s2 + 1\<rparr> else s2)
                      in Inr (s3\<lparr>frames :=
                                (frames s3)[i := new_frame page_number is_write]\<rparr>))))"

definition clock_read_memory :: "int \<Rightarrow> clock_mmu \<Rightarrow> clock_mmu result" where
  "clock_read_memory page_number self = clock_access_memory page_number False self"

definition clock_write_memory :: "int \<Rightarrow> clock_mmu \<Rightarrow> clock_mmu result" where
  "clock_write_memory page_number self = clock_access_memory page_number True self"

fun clock_do :: "access \<Rightarrow> clock_mmu \<Rightarrow> clock_mmu result" where
  "clock_do (Read p) self = clock_read_memory p self"
| "clock_do (Write p) self = clock_write_memory p self"

fun clock_run :: "clock_mmu \<Rightarrow> access list \<Rightarrow> clock_mmu result" where
  "clock_run self [] = Inr self"
| "clock_run self (a # as) =
     (case clock_do a self of Inl e \<Rightarrow> Inl e | Inr s \<Rightarrow> clock_run s as)"

definition clock_pages :: "clock_mmu \<Rightarrow> int set" where
  "clock_pages self = set (map page (frames self))"

subsection \<open>RandMMU\<close>

definition rand_init :: "int \<Rightarrow> rand_mmu" where
  "rand_init n =
     \<lparr>number_frames = n, frames = [], page_faults = 0, disk_reads = 0, disk_writes = 0,
      debug = False\<rparr>"

definition rand_load :: "int \<Rightarrow> bool \<Rightarrow> rand_mmu \<Rightarrow> rand_mmu" where
  "rand_load page_number is_write self =
     self\<lparr>frames := AList.update page_number \<lparr>dirty = is_write\<rparr> (frames self)\<rparr>"

text \<open>
  \<open>draw\<close> is what the random generator delivers if this call reaches
  \<open>random.choice(list(self.frames.keys()))\<close>.
\<close>

definition rand_access_memory :: "nat \<Rightarrow> int \<Rightarrow> bool \<Rightarrow> rand_mmu \<Rightarrow> rand_mmu result" where
  "rand_access_memory draw page_number is_write self =
     (if page_number \<in> set (map fst (frames self)) then
        Inr (if is_write
             then self\<lparr>frames := AList.map_entry page_number
                    (\<lambda>f. f\<lparr>dirty := True\<rparr>) (frames self)\<rparr>
             else self)
      else
        let s1 = self\<lparr>page_faults := page_faults self + 1,
                      disk_reads := disk_reads self + 1\<rparr> in
        if int (length (frames s1)) \<ge> number_frames s1 then
          (case random_choice draw (map fst (frames s1)) of
             None \<Rightarrow> Inl (IndexError, s1)
           | Some removing_page \<Rightarrow>
               let removing_page_dirty = dirty (the (map_of (frames s1) removing_page));
                   s2 = (if removing_page_dirty
                         then s1\<lparr>disk_writes := disk_writes s1 + 1\<rparr> else s1);
                   s3 = s2\<lparr>frames := AList.delete removing_page (frames s2)\<rparr>
               in Inr (rand_load page_number is_write s3))
        else Inr (rand_load page_number is_write s1))"

definition rand_read_memory :: "nat \<Rightarrow> int \<Rightarrow> rand_mmu \<Rightarrow> rand_mmu result" where
  "rand_read_memory draw page_number self = rand_access_memory draw page_number False self"

definition rand_write_memory :: "nat \<Rightarrow> int \<Rightarrow> rand_mmu \<Rightarrow> rand_mmu result" where
  "rand_write_memory draw page_number self = rand_access_memory draw page_number True self"

text \<open>For the Random policy each event of the trace comes with the generator's draw.\<close>

fun rand_do :: "nat \<times> access \<Rightarrow> rand_mmu \<Rightarrow> rand_mmu result" where
  "rand_do (draw, Read p) self = rand_read_memory draw p self"
| "rand_do (draw, Write p) self = rand_write_memory draw p self"

fun rand_run :: "rand_mmu \<Rightarrow> (nat \<times> access) list \<Rightarrow> rand_mmu result" where
  "rand_run self [] = Inr self"
| "rand_run self (a # as) =
     (case rand_do a self of Inl e \<Rightarrow> Inl e | Inr s \<Rightarrow> rand_run s as)"

definition rand_pages :: "rand_mmu \<Rightarrow> int set" where
  "rand_pages self = set (map fst (frames self))"

section \<open>Notions used to state the properties\<close>

text \<open>
  None of the following is code of the policies: the counts of misses, the invariants of
  the states that a run reaches, and the relation between the states before and after a
  sweep are what the properties below are stated and proved with.
\<close>

definition lru_inv :: "lru_mmu \<Rightarrow> bool" where
  "lru_inv s \<longleftrightarrow>
     int (length (frames s)) \<le> number_frames s \<and> distinct (map fst (frames s)) \<and>
     (\<forall>p f. map_of (frames s) p = Some f \<longrightarrow> last_used f \<le> recency_tracker s) \<and>
     (\<forall>p q f g. map_of (frames s) p = Some f \<longrightarrow> map_of (frames s) q = Some g \<longrightarrow>
        last_used f = last_used g \<longrightarrow> p = q)"

fun lru_misses :: "lru_mmu \<Rightarrow> access list \<Rightarrow> nat" where
  "lru_misses s [] = 0"
| "lru_misses s (a # as) =
     (if page_of a \<in> lru_pages s then 0 else 1) + lru_misses (final (lru_do a s)) as"

definition lru_clean :: "lru_mmu \<Rightarrow> bool" where
  "lru_clean s \<longleftrightarrow> disk_writes s = 0 \<and> (\<forall>p f. map_of (frames s) p = Some f \<longrightarrow> \<not> dirty f)"

definition clock_inv :: "clock_mmu \<Rightarrow> bool" where
  "clock_inv s \<longleftrightarrow>
     int (length (frames s)) \<le> number_frames s \<and> distinct (map page (frames s)) \<and>
     0 \<le> clock_hand s \<and> clock_hand s < number_frames s"

definition same_slots :: "clock_mmu \<Rightarrow> clock_mmu \<Rightarrow> bool" where
  "same_slots s s' \<longleftrightarrow>
     number_frames s' = number_frames s \<and> page_faults s' = page_faults s \<and>
     disk_reads s' = disk_reads s \<and> disk_writes s' = disk_writes s \<and>
     map page (frames s') = map page (frames s) \<and> map dirty (frames s') = map dirty (frames s)"

fun clock_misses :: "clock_mmu \<Rightarrow> access list \<Rightarrow> nat" where
  "clock_misses s [] = 0"
| "clock_misses s (a # as) =
     (if page_of a \<in> clock_pages s then 0 else 1) + clock_misses (final (clock_do a s)) as"

definition clock_clean :: "clock_mmu \<Rightarrow> bool" where
  "clock_clean s \<longleftrightarrow> disk_writes s = 0 \<and> (\<forall>f\<in>set (frames s). \<not> dirty f)"

definition rand_inv :: "rand_mmu \<Rightarrow> bool" where
  "rand_inv s \<longleftrightarrow>
     int (length (frames s)) \<le> number_frames s \<and> distinct (map fst (frames s))"

fun rand_misses :: "rand_mmu \<Rightarrow> (nat \<times> access) list \<Rightarrow> nat" where
  "rand_misses s [] = 0"
| "rand_misses s (a # as) =
     (if page_of (snd a) \<in> rand_pages s then 0 else 1) + rand_misses (final (rand_do a s)) as"

definition rand_clean :: "rand_mmu \<Rightarrow> bool" where
  "rand_clean s \<longleftrightarrow> disk_writes s = 0 \<and> (\<forall>p f. map_of (frames s) p = Some f \<longrightarrow> \<not> dirty f)"

section \<open>Properties\<close>

lemma map_fst_map_entry: "map fst (AList.map_entry k f al) = map fst al"
  by (induction al) auto

lemma length_map_entry: "length (AList.map_entry k f al) = length al"
  by (induction al) auto

lemma update_fresh: "k \<notin> fst ` set al \<Longrightarrow> AList.update k v al = al @ [(k, v)]"
  by (induction al) auto

lemma length_delete_less: "k \<in> fst ` set al \<Longrightarrow> length (AList.delete k al) < length al"
  by (induction al) (auto simp: le_imp_less_Suc AList.length_delete_le)

lemma fold_min_in: "fold (\<lambda>y best. if k y < k best then y else best) xs x \<in> set (x # xs)"
  by (induction xs arbitrary: x) auto

lemma fold_min_le_init:
  "k (fold (\<lambda>y best. if k y < k best then y else best) xs x) \<le> (k x :: int)"
proof (induction xs arbitrary: x)
  case Nil
  show ?case by simp
next
  case (Cons y ys)
  show ?case
    using Cons.IH [of y] Cons.IH [of x] by auto
qed

lemma fold_min_le:
  "y \<in> set xs \<Longrightarrow> k (fold (\<lambda>y best. if k y < k best then y else best) xs x) \<le> (k y :: int)"
proof (induction xs arbitrary: x)
  case Nil
  then show ?case by simp
next
  case (Cons z zs)
  show ?case
  proof (cases "y = z")
    case True
    show ?thesis
      using fold_min_le_init [of k zs z] fold_min_le_init [of k zs x] True by auto
  next
    case False
    with Cons.prems have "y \<in> set zs" by simp
    then show ?thesis using Cons.IH by simp
  qed
qed

lemma py_min_None: "py_min k xs = None \<longleftrightarrow> xs = []"
  by (cases xs) auto

lemma py_min_Some:
  assumes "py_min k xs = Some m"
  shows "m \<in> set xs" and "\<forall>x\<in>set xs. k m \<le> k x"
proof -
  from assms obtain y ys where xs: "xs = y # ys"
    and m: "m = fold (\<lambda>y best. if k y < k best then y else best) ys y"
    by (cases xs) auto
  show "m \<in> set xs" unfolding xs m by (rule fold_min_in)
  show "\<forall>x\<in>set xs. k m \<le> k x"
    unfolding xs m using fold_min_le [of _ ys k y] fold_min_le_init [of k ys y] by auto
qed

lemma map_entry_twice:
  "AList.map_entry k g (AList.map_entry k h al) = AList.map_entry k (g \<circ> h) al"
  by (induction al) auto

lemma lru_hit:
  assumes "p \<in> fst ` set (frames s)"
  shows "lru_access_memory p w s =
    Inr (s\<lparr>recency_tracker := recency_tracker s + 1,
           frames := AList.map_entry p
              (\<lambda>f. f\<lparr>dirty := (w \<or> dirty f), last_used := recency_tracker s + 1\<rparr>)
              (frames s)\<rparr>)"
  using assms by (cases w) (simp_all add: lru_access_memory_def Let_def map_entry_twice comp_def)

lemma lru_fault_free:
  assumes "p \<notin> fst ` set (frames s)" "int (length (frames s)) < number_frames s"
  shows "lru_access_memory p w s =
    Inr (s\<lparr>recency_tracker := recency_tracker s + 1,
           page_faults := page_faults s + 1, disk_reads := disk_reads s + 1,
           frames := frames s @ [(p, \<lparr>dirty = w, last_used = recency_tracker s + 1\<rparr>)]\<rparr>)"
  using assms by (simp add: lru_access_memory_def Let_def lru_load_def update_fresh)

lemma lru_fault_full:
  assumes "p \<notin> fst ` set (frames s)" "number_frames s \<le> int (length (frames s))"
    "lru_removing_page s = Some v"
  shows "lru_access_memory p w s =
    Inr (s\<lparr>recency_tracker := recency_tracker s + 1,
           page_faults := page_faults s + 1, disk_reads := disk_reads s + 1,
           disk_writes := disk_writes s +
              (if dirty (the (map_of (frames s) v)) then 1 else 0),
           frames := AList.delete v (frames s) @
              [(p, \<lparr>dirty = w, last_used = recency_tracker s + 1\<rparr>)]\<rparr>)"
proof -
  have "p \<notin> fst ` set (AList.delete v (frames s))"
    using assms(1) AList.dom_delete_subset [of v "frames s"] by blast
  then show ?thesis
    using assms by (simp add: lru_access_memory_def Let_def lru_load_def update_fresh
      lru_removing_page_def)
qed

lemma lru_fault_error:
  assumes "p \<notin> fst ` set (frames s)" "number_frames s \<le> int (length (frames s))"
    "frames s = []"
  shows "lru_access_memory p w s =
    Inl (ValueError, s\<lparr>recency_tracker := recency_tracker s + 1,
           page_faults := page_faults s + 1, disk_reads := disk_reads s + 1\<rparr>)"
  using assms by (simp add: lru_access_memory_def Let_def lru_removing_page_def)

lemma lru_do_eq: "lru_do a s = lru_access_memory (page_of a) (is_write_of a) s"
  by (cases a) (simp_all add: lru_read_memory_def lru_write_memory_def)

lemma lru_removing_page_Some:
  assumes "frames s \<noteq> []"
  obtains v where "lru_removing_page s = Some v" "v \<in> fst ` set (frames s)"
    "\<forall>q\<in>fst ` set (frames s).
       last_used (the (map_of (frames s) v)) \<le> last_used (the (map_of (frames s) q))"
proof -
  from assms have "py_min (\<lambda>p. last_used (the (map_of (frames s) p))) (map fst (frames s)) \<noteq> None"
    by (simp add: py_min_None)
  then obtain v where v: "lru_removing_page s = Some v"
    unfolding lru_removing_page_def by blast
  from py_min_Some [OF v [unfolded lru_removing_page_def]] that [OF v] show thesis
    by simp
qed

lemma lru_access_cases:
  obtains (hit) "p \<in> fst ` set (frames s)"
    "lru_access_memory p w s =
      Inr (s\<lparr>recency_tracker := recency_tracker s + 1,
           frames := AList.map_entry p
              (\<lambda>f. f\<lparr>dirty := (w \<or> dirty f), last_used := recency_tracker s + 1\<rparr>)
              (frames s)\<rparr>)"
  | (free) "p \<notin> fst ` set (frames s)" "int (length (frames s)) < number_frames s"
    "lru_access_memory p w s =
      Inr (s\<lparr>recency_tracker := recency_tracker s + 1,
           page_faults := page_faults s + 1, disk_reads := disk_reads s + 1,
           frames := frames s @ [(p, \<lparr>dirty = w, last_used = recency_tracker s + 1\<rparr>)]\<rparr>)"
  | (error) "p \<notin> fst ` set (frames s)" "number_frames s \<le> int (length (frames s))"
    "frames s = []"
    "lru_access_memory p w s =
      Inl (ValueError, s\<lparr>recency_tracker := recency_tracker s + 1,
           page_faults := page_faults s + 1, disk_reads := disk_reads s + 1\<rparr>)"
  | (evict) v where "p \<notin> fst ` set (frames s)" "number_frames s \<le> int (length (frames s))"
    "lru_removing_page s = Some v" "v \<in> fst ` set (frames s)"
    "\<forall>q\<in>fst ` set (frames s).
       last_used (the (map_of (frames s) v)) \<le> last_used (the (map_of (frames s) q))"
    "lru_access_memory p w s =
      Inr (s\<lparr>recency_tracker := recency_tracker s + 1,
           page_faults := page_faults s + 1, disk_reads := disk_reads s + 1,
           disk_writes := disk_writes s +
              (if dirty (the (map_of (frames s) v)) then 1 else 0),
           frames := AList.delete v (frames s) @
              [(p, \<lparr>dirty = w, last_used = recency_tracker s + 1\<rparr>)]\<rparr>)"
proof (cases "p \<in> fst ` set (frames s)")
  case True
  then show ?thesis using hit lru_hit by blast
next
  case nres: False
  show ?thesis
  proof (cases "int (length (frames s)) < number_frames s")
    case True
    with nres show ?thesis using free lru_fault_free by blast
  next
    case False
    then have full: "number_frames s \<le> int (length (frames s))" by simp
    show ?thesis
    proof (cases "frames s = []")
      case True
      with nres full show ?thesis using error lru_fault_error by blast
    next
      case False
      then obtain v where v: "lru_removing_page s = Some v" "v \<in> fst ` set (frames s)"
        "\<forall>q\<in>fst ` set (frames s).
           last_used (the (map_of (frames s) v)) \<le> last_used (the (map_of (frames s) q))"
        by (rule lru_removing_page_Some)
      from evict [OF nres full v] lru_fault_full [OF nres full v(1)] show ?thesis
        by blast
    qed
  qed
qed

lemma map_of_Some_dom: "map_of al k = Some v \<Longrightarrow> k \<in> fst ` set al"
  by (metis map_of_eq_None_iff option.distinct(1))

lemma lru_step_inv:
  assumes inv: "lru_inv s" and c: "1 \<le> number_frames s"
  shows "\<exists>s'. lru_access_memory p w s = Inr s' \<and> lru_inv s' \<and>
     number_frames s' = number_frames s"
proof (cases rule: lru_access_cases [where p = p and w = w and s = s])
  case hit
  have "lru_inv (s\<lparr>recency_tracker := recency_tracker s + 1,
           frames := AList.map_entry p
              (\<lambda>f. f\<lparr>dirty := (w \<or> dirty f), last_used := recency_tracker s + 1\<rparr>)
              (frames s)\<rparr>)"
    using inv unfolding lru_inv_def
    by (auto simp: length_map_entry map_fst_map_entry AList.map_of_map_entry
        split: option.splits if_splits) fastforce+
  with hit show ?thesis by simp
next
  case free
  have "lru_inv (s\<lparr>recency_tracker := recency_tracker s + 1,
           page_faults := page_faults s + 1, disk_reads := disk_reads s + 1,
           frames := frames s @ [(p, \<lparr>dirty = w, last_used = recency_tracker s + 1\<rparr>)]\<rparr>)"
    using inv free(1,2) unfolding lru_inv_def
    by (auto simp: map_add_def split: option.splits if_splits dest: map_of_Some_dom) fastforce+
  with free show ?thesis by simp
next
  case error
  with c show ?thesis by simp
next
  case (evict v)
  have len: "length (AList.delete v (frames s)) < length (frames s)"
    using evict(4) by (rule length_delete_less)
  have nin: "p \<notin> fst ` set (AList.delete v (frames s))"
    using evict(1) AList.dom_delete_subset [of v "frames s"] by blast
  have "lru_inv (s\<lparr>recency_tracker := recency_tracker s + 1,
           page_faults := page_faults s + 1, disk_reads := disk_reads s + 1,
           disk_writes := disk_writes s +
              (if dirty (the (map_of (frames s) v)) then 1 else 0),
           frames := AList.delete v (frames s) @
              [(p, \<lparr>dirty = w, last_used = recency_tracker s + 1\<rparr>)]\<rparr>)"
    using inv len nin unfolding lru_inv_def
    by (auto simp: map_add_def AList.delete_conv' AList.distinct_delete
        split: option.splits if_splits dest: map_of_Some_dom) fastforce+
  with evict show ?thesis by simp
qed

lemma lru_init_inv: "0 \<le> c \<Longrightarrow> lru_inv (lru_init c)"
  by (simp add: lru_inv_def lru_init_def)

lemma lru_run_inv:
  assumes "lru_inv s" "1 \<le> number_frames s"
  shows "\<exists>s'. lru_run s as = Inr s' \<and> lru_inv s' \<and> number_frames s' = number_frames s"
  using assms
proof (induction as arbitrary: s)
  case Nil
  then show ?case by simp
next
  case (Cons a as)
  from lru_step_inv [OF Cons.prems] obtain s1 where
    s1: "lru_do a s = Inr s1" "lru_inv s1" "number_frames s1 = number_frames s"
    unfolding lru_do_eq by blast
  with Cons.IH [of s1] Cons.prems(2) show ?case by simp
qed

lemma lru_reachable:
  assumes "1 \<le> c"
  shows "\<exists>s. lru_run (lru_init c) as = Inr s \<and> lru_inv s \<and> number_frames s = c"
proof -
  have "lru_inv (lru_init c)" using assms by (simp add: lru_init_inv)
  moreover have "number_frames (lru_init c) = c" by (simp add: lru_init_def)
  ultimately show ?thesis using lru_run_inv [of "lru_init c" as] assms by simp
qed

lemma lru_step_counters:
  "page_faults (final (lru_access_memory p w s)) =
     page_faults s + (if p \<in> lru_pages s then 0 else 1) \<and>
   disk_reads (final (lru_access_memory p w s)) =
     disk_reads s + (if p \<in> lru_pages s then 0 else 1)"
  by (cases rule: lru_access_cases [where p = p and w = w and s = s])
     (simp_all add: final_def lru_pages_def)

lemma lru_run_misses:
  "lru_run s as = Inr s' \<Longrightarrow> page_faults s' = page_faults s + int (lru_misses s as)"
proof (induction as arbitrary: s)
  case Nil
  then show ?case by simp
next
  case (Cons a as)
  then obtain s1 where s1: "lru_do a s = Inr s1" "lru_run s1 as = Inr s'"
    by (auto split: sum.splits)
  have "page_faults s1 = page_faults s + (if page_of a \<in> lru_pages s then 0 else 1)"
    using lru_step_counters [of "page_of a" "is_write_of a" s] s1(1)
    by (simp add: lru_do_eq final_def)
  with Cons.IH [OF s1(2)] s1(1) show ?case by (simp add: final_def)
qed

lemma lru_run_final:
  assumes "P s" and step: "\<And>s a. P s \<Longrightarrow> P (final (lru_do a s))"
  shows "P (final (lru_run s as))"
  using assms(1)
proof (induction as arbitrary: s)
  case Nil
  then show ?case by (simp add: final_def)
next
  case (Cons a as)
  show ?case
  proof (cases "lru_do a s")
    case (Inl e)
    with step [OF Cons.prems, of a] show ?thesis by (simp add: final_def)
  next
    case (Inr s1)
    with step [OF Cons.prems, of a] have "P s1" by (simp add: final_def)
    with Cons.IH [of s1] Inr show ?thesis by simp
  qed
qed

lemma lru_run_reads_eq_faults:
  "disk_reads (final (lru_run (lru_init c) as)) = page_faults (final (lru_run (lru_init c) as))"
proof (rule lru_run_final [where P = "\<lambda>s. disk_reads s = page_faults s"])
  show "disk_reads (lru_init c) = page_faults (lru_init c)" by (simp add: lru_init_def)
next
  fix s :: lru_mmu and a
  assume "disk_reads s = page_faults s"
  then show "disk_reads (final (lru_do a s)) = page_faults (final (lru_do a s))"
    using lru_step_counters [of "page_of a" "is_write_of a" s] by (simp add: lru_do_eq)
qed

lemma lru_step_resident:
  assumes "lru_access_memory p w s = Inr s'"
  shows "p \<in> lru_pages s'"
proof (cases rule: lru_access_cases [where p = p and w = w and s = s])
  case hit
  with assms have "s' = s\<lparr>recency_tracker := recency_tracker s + 1,
           frames := AList.map_entry p
              (\<lambda>f. f\<lparr>dirty := (w \<or> dirty f), last_used := recency_tracker s + 1\<rparr>)
              (frames s)\<rparr>"
    by simp
  then have "lru_pages s' = fst ` set (frames s)"
    by (simp add: lru_pages_def AList.dom_map_entry)
  with hit(1) show ?thesis by simp
qed (use assms in \<open>auto simp: lru_pages_def\<close>)

lemma dom_delete: "fst ` set (AList.delete k al) = fst ` set al - {k}"
  by (induction al) auto

lemma lru_read_clean:
  assumes "lru_clean s"
  shows "lru_clean (final (lru_access_memory p False s))"
proof (cases rule: lru_access_cases [where p = p and w = False and s = s])
  case hit
  with assms show ?thesis
    by (auto simp: final_def lru_clean_def AList.map_of_map_entry split: option.splits if_splits)
next
  case free
  with assms show ?thesis
    by (auto simp: final_def lru_clean_def map_add_def split: option.splits if_splits)
next
  case error
  with assms show ?thesis by (simp add: final_def lru_clean_def)
next
  case (evict v)
  from evict(4) obtain f where f: "map_of (frames s) v = Some f"
    by (metis map_of_eq_None_iff not_None_eq)
  with assms have "\<not> dirty (the (map_of (frames s) v))" by (simp add: lru_clean_def)
  with evict assms show ?thesis
    by (auto simp: final_def lru_clean_def map_add_def AList.delete_conv'
        split: option.splits if_splits)
qed

lemma lru_no_writes:
  assumes "\<forall>a\<in>set as. \<not> is_write_of a"
  shows "disk_writes (final (lru_run (lru_init c) as)) = 0"
proof -
  have "lru_clean s \<Longrightarrow> \<forall>a\<in>set as. \<not> is_write_of a \<Longrightarrow> lru_clean (final (lru_run s as))"
    for s
  proof (induction as arbitrary: s)
    case Nil
    then show ?case by (simp add: final_def)
  next
    case (Cons a as)
    from Cons.prems have "lru_clean (final (lru_do a s))"
      using lru_read_clean [of s "page_of a"] by (simp add: lru_do_eq)
    with Cons show ?case
      by (cases "lru_do a s") (auto simp: final_def lru_clean_def)
  qed
  moreover have "lru_clean (lru_init c)" by (simp add: lru_clean_def lru_init_def)
  ultimately show ?thesis using assms by (simp add: lru_clean_def)
qed

lemma lru_step_writes:
  assumes "lru_inv s" "1 \<le> number_frames s"
  shows "\<exists>s'. lru_access_memory p w s = Inr s' \<and>
     disk_writes s' = disk_writes s +
       (if \<exists>v f. map_of (frames s) v = Some f \<and> v \<notin> lru_pages s' \<and> dirty f then 1 else 0)"
proof (cases rule: lru_access_cases [where p = p and w = w and s = s])
  case hit
  then show ?thesis
    by (auto simp: lru_pages_def AList.dom_map_entry dest: map_of_Some_dom)
next
  case free
  then show ?thesis
    by (auto simp: lru_pages_def dest: map_of_Some_dom)
next
  case error
  with assms show ?thesis by simp
next
  case (evict v)
  from evict(4) obtain f where f: "map_of (frames s) v = Some f"
    by (metis map_of_eq_None_iff not_None_eq)
  have "(\<exists>v' f'. map_of (frames s) v' = Some f' \<and>
          v' \<notin> insert p (fst ` set (AList.delete v (frames s))) \<and> dirty f') \<longleftrightarrow> dirty f"
    using f evict(1) evict(4) by (auto simp: dom_delete dest: map_of_Some_dom)
  with evict(6) f show ?thesis
    by (simp add: lru_pages_def)
qed

lemma lru_hit_clean_read:
  assumes "map_of (frames s) p = Some f" "\<not> dirty f"
  shows "\<exists>s' f'. lru_run s (replicate n (Read p)) = Inr s' \<and>
     map_of (frames s') p = Some f' \<and> \<not> dirty f' \<and>
     disk_reads s' = disk_reads s \<and> disk_writes s' = disk_writes s \<and>
     page_faults s' = page_faults s"
  using assms
proof (induction n arbitrary: s f)
  case 0
  then show ?case by simp
next
  case (Suc n)
  let ?s1 = "s\<lparr>recency_tracker := recency_tracker s + 1,
           frames := AList.map_entry p
              (\<lambda>f. f\<lparr>dirty := (False \<or> dirty f), last_used := recency_tracker s + 1\<rparr>)
              (frames s)\<rparr>"
  from Suc.prems have "p \<in> fst ` set (frames s)" by (auto dest: map_of_Some_dom)
  then have s1: "lru_do (Read p) s = Inr ?s1"
    by (simp add: lru_read_memory_def lru_hit)
  have "map_of (frames ?s1) p = Some (f\<lparr>last_used := recency_tracker s + 1\<rparr>)"
    using Suc.prems by (simp add: AList.map_of_map_entry)
  from Suc.IH [OF this] Suc.prems(2) s1 show ?case by simp
qed

lemma lru_evict_step:
  assumes inv: "lru_inv s" and c: "1 \<le> number_frames s"
    and fault: "p \<notin> lru_pages s"
    and full: "number_frames s \<le> int (length (frames s))"
  shows "\<exists>v fv s'. lru_removing_page s = Some v \<and> map_of (frames s) v = Some fv \<and>
       (\<forall>q fq. q \<noteq> v \<longrightarrow> map_of (frames s) q = Some fq \<longrightarrow> last_used fv < last_used fq) \<and>
       lru_access_memory p w s = Inr s' \<and>
       lru_pages s' = insert p (lru_pages s - {v}) \<and>
       disk_writes s' = disk_writes s + (if dirty fv then 1 else 0) \<and>
       recency_tracker s' = recency_tracker s + 1 \<and>
       map_of (frames s') p = Some \<lparr>dirty = w, last_used = recency_tracker s'\<rparr> \<and>
       (\<forall>q. q \<noteq> v \<longrightarrow> q \<noteq> p \<longrightarrow> map_of (frames s') q = map_of (frames s) q)"
proof (cases rule: lru_access_cases [where p = p and w = w and s = s])
  case hit
  with fault show ?thesis by (simp add: lru_pages_def)
next
  case free
  with full show ?thesis by simp
next
  case error
  with c show ?thesis by simp
next
  case (evict v)
  let ?s' = "s\<lparr>recency_tracker := recency_tracker s + 1,
           page_faults := page_faults s + 1, disk_reads := disk_reads s + 1,
           disk_writes := disk_writes s +
              (if dirty (the (map_of (frames s) v)) then 1 else 0),
           frames := AList.delete v (frames s) @
              [(p, \<lparr>dirty = w, last_used = recency_tracker s + 1\<rparr>)]\<rparr>"
  from evict(4) obtain fv where fv: "map_of (frames s) v = Some fv"
    by (metis map_of_eq_None_iff not_None_eq)
  have strict: "last_used fv < last_used fq"
    if "q \<noteq> v" "map_of (frames s) q = Some fq" for q fq
  proof -
    from that(2) have "q \<in> fst ` set (frames s)" by (rule map_of_Some_dom)
    with evict(5) fv that(2) have "last_used fv \<le> last_used fq" by auto
    moreover have "last_used fv \<noteq> last_used fq"
      using inv fv that unfolding lru_inv_def by blast
    ultimately show ?thesis by simp
  qed
  have nin: "map_of (AList.delete v (frames s)) p = None"
    using evict(1) by (simp add: map_of_eq_None_iff dom_delete)
  have pages: "lru_pages ?s' = insert p (lru_pages s - {v})"
    by (simp add: lru_pages_def dom_delete)
  have new: "map_of (frames ?s') p = Some \<lparr>dirty = w, last_used = recency_tracker ?s'\<rparr>"
    using nin by (simp add: map_add_def)
  have old: "map_of (frames ?s') q = map_of (frames s) q" if "q \<noteq> v" "q \<noteq> p" for q
    using that by (simp add: map_add_def AList.delete_conv' split: option.splits)
  show ?thesis
    using evict(3) fv strict evict(6) pages new old
    by (intro exI [of _ v] exI [of _ fv] exI [of _ ?s']) simp
qed

lemma lru_scenario_3:
  "lru_run (lru_init 2) [Read 1, Read 2, Read 1] =
     Inr \<lparr>number_frames = 2,
          frames = [(1, \<lparr>dirty = False, last_used = 3\<rparr>), (2, \<lparr>dirty = False, last_used = 2\<rparr>)],
          page_faults = 2, disk_reads = 2, disk_writes = 0, debug = False,
          recency_tracker = 3\<rparr>"
  by (simp add: lru_init_def lru_read_memory_def lru_access_memory_def lru_load_def
      lru_removing_page_def Let_def)

lemma lru_scenario_4:
  "lru_run (lru_init 2) [Read 1, Read 2, Read 1, Write 3] =
     Inr \<lparr>number_frames = 2,
          frames = [(1, \<lparr>dirty = False, last_used = 3\<rparr>), (3, \<lparr>dirty = True, last_used = 4\<rparr>)],
          page_faults = 3, disk_reads = 3, disk_writes = 0, debug = False,
          recency_tracker = 4\<rparr>"
  by (simp add: lru_init_def lru_read_memory_def lru_write_memory_def lru_access_memory_def
      lru_load_def lru_removing_page_def Let_def)

lemma lru_scenario_victim:
  "lru_removing_page \<lparr>number_frames = 2,
          frames = [(1, \<lparr>dirty = False, last_used = 3\<rparr>), (2, \<lparr>dirty = False, last_used = 2\<rparr>)],
          page_faults = 2, disk_reads = 2, disk_writes = 0, debug = False,
          recency_tracker = 3\<rparr> = Some 2"
  by (simp add: lru_removing_page_def)

lemma same_slots_refl: "same_slots s s"
  by (simp add: same_slots_def)

lemma same_slots_trans: "same_slots s t \<Longrightarrow> same_slots t u \<Longrightarrow> same_slots s u"
  by (simp add: same_slots_def)

lemma map_update_same:
  "i < length xs \<Longrightarrow> f y = f (xs ! i) \<Longrightarrow> map f (xs[i := y]) = map f xs"
  by (simp add: map_update list_update_same_conv)

lemma body_same_slots:
  "find_removing_page_body s = Raised e s' \<Longrightarrow> same_slots s s'"
  "find_removing_page_body s = Returned i s' \<Longrightarrow> same_slots s s'"
  "find_removing_page_body s = Again s' \<Longrightarrow> same_slots s s'"
  by (auto simp: find_removing_page_body_def Let_def same_slots_def map_update_same
      split: option.splits if_splits dest: py_slot_Some)

lemma find_same_slots:
  "find_removing_page s = Inl (e, s') \<or> find_removing_page s = Inr (i, s') \<Longrightarrow> same_slots s s'"
proof (induction s rule: find_removing_page.induct)
  case (1 self)
  show ?case
  proof (cases "find_removing_page_body self")
    case (Raised e1 s1)
    with "1.prems" have "s' = s1" by (simp add: find_removing_page.simps [of self])
    with Raised show ?thesis by (simp add: body_same_slots)
  next
    case (Returned i1 s1)
    with "1.prems" have "s' = s1" by (simp add: find_removing_page.simps [of self])
    with Returned show ?thesis by (simp add: body_same_slots)
  next
    case (Again s1)
    with "1.prems" have "find_removing_page s1 = Inl (e, s') \<or> find_removing_page s1 = Inr (i, s')"
      by (simp add: find_removing_page.simps [of self])
    with "1.IH" [OF Again] have "same_slots s1 s'" by simp
    moreover from Again have "same_slots self s1" by (rule body_same_slots)
    ultimately show ?thesis by (blast intro: same_slots_trans)
  qed
qed

lemma py_slot_in_range: "0 \<le> i \<Longrightarrow> i < int (length xs) \<Longrightarrow> py_slot xs i = Some (nat i)"
  by (simp add: py_slot_def)

lemma hand_step_range:
  fixes h n :: int
  assumes "0 \<le> h" "h < n"
  shows "0 \<le> (h + 1) mod n" "(h + 1) mod n < n"
proof -
  from assms have "0 < n" by simp
  then show "0 \<le> (h + 1) mod n" "(h + 1) mod n < n" by simp_all
qed

lemma body_full:
  assumes "clock_inv s" "number_frames s = int (length (frames s))"
  shows "find_removing_page_body s =
    (if reference (frames s ! nat (clock_hand s)) = 0
     then Returned (clock_hand s)
            (s\<lparr>clock_hand := (clock_hand s + 1) mod number_frames s\<rparr>)
     else Again (s\<lparr>frames := (frames s)[nat (clock_hand s) :=
                        (frames s ! nat (clock_hand s))\<lparr>reference := 0\<rparr>],
                   clock_hand := (clock_hand s + 1) mod number_frames s\<rparr>))"
proof -
  from assms have "py_slot (frames s) (clock_hand s) = Some (nat (clock_hand s))"
    by (simp add: clock_inv_def py_slot_in_range)
  moreover from assms have "number_frames s \<noteq> 0" by (auto simp: clock_inv_def)
  ultimately show ?thesis by (simp add: find_removing_page_body_def Let_def)
qed

lemma find_full:
  assumes "clock_inv s" "number_frames s = int (length (frames s))"
  shows "\<exists>i s'. find_removing_page s = Inr (i, s') \<and> 0 \<le> i \<and> i < number_frames s \<and>
     reference (frames s' ! nat i) = 0 \<and> clock_hand s' = (i + 1) mod number_frames s \<and>
     debug s' = debug s"
  using assms
proof (induction s rule: find_removing_page.induct)
  case (1 self)
  note body = body_full [OF "1.prems"]
  show ?case
  proof (cases "reference (frames self ! nat (clock_hand self)) = 0")
    case True
    with body "1.prems" show ?thesis
      by (simp add: find_removing_page.simps [of self] clock_inv_def)
  next
    case False
    let ?s1 = "self\<lparr>frames := (frames self)[nat (clock_hand self) :=
                        (frames self ! nat (clock_hand self))\<lparr>reference := 0\<rparr>],
                   clock_hand := (clock_hand self + 1) mod number_frames self\<rparr>"
    from False body have again: "find_removing_page_body self = Again ?s1" by simp
    from "1.prems" have "nat (clock_hand self) < length (frames self)"
      by (auto simp: clock_inv_def)
    then have "map page (frames ?s1) = map page (frames self)"
      by (simp add: map_update_same)
    with "1.prems" have "clock_inv ?s1" "number_frames ?s1 = int (length (frames ?s1))"
      by (simp_all add: clock_inv_def hand_step_range)
    from "1.IH" [OF again this] again show ?thesis
      by (simp add: find_removing_page.simps [of self])
  qed
qed

lemma inspected_bound: "length (inspected s) \<le> referenced s + 1"
proof (induction s rule: inspected.induct)
  case (1 self)
  show ?case
  proof (cases "find_removing_page_body self")
    case (Again s1)
    from "1.IH" [OF Again] body_Again_referenced [OF Again] Again show ?thesis
      by (simp add: inspected.simps [of self])
  qed (simp_all add: inspected.simps [of self])
qed

lemma referenced_le: "referenced s \<le> length (frames s)"
  by (simp add: referenced_def)

lemma clock_do_eq: "clock_do a s = clock_access_memory (page_of a) (is_write_of a) s"
  by (cases a) (simp_all add: clock_read_memory_def clock_write_memory_def)

lemma clock_hit_None: "clock_hit p w fs = None \<longleftrightarrow> p \<notin> page ` set fs"
  by (induction fs) (auto simp: Let_def)

lemma clock_hit_Some:
  "clock_hit p w fs = Some fs' \<Longrightarrow>
     map page fs' = map page fs \<and> (\<not> w \<longrightarrow> map dirty fs' = map dirty fs)"
  by (induction fs arbitrary: fs') (auto simp: Let_def split: if_splits)

lemma clock_access_cases:
  obtains (hit) fs' where "p \<in> clock_pages s" "map page fs' = map page (frames s)"
    "\<not> w \<Longrightarrow> map dirty fs' = map dirty (frames s)"
    "clock_access_memory p w s = Inr (s\<lparr>frames := fs'\<rparr>)"
  | (free) "p \<notin> clock_pages s" "int (length (frames s)) < number_frames s"
    "clock_access_memory p w s =
       Inr (s\<lparr>page_faults := page_faults s + 1, disk_reads := disk_reads s + 1,
              frames := frames s @ [new_frame p w]\<rparr>)"
  | (raised) e s2 where "p \<notin> clock_pages s" "number_frames s \<le> int (length (frames s))"
    "same_slots (s\<lparr>page_faults := page_faults s + 1, disk_reads := disk_reads s + 1\<rparr>) s2"
    "find_removing_page (s\<lparr>page_faults := page_faults s + 1,
        disk_reads := disk_reads s + 1\<rparr>) = Inl (e, s2) \<or>
     (\<exists>i. find_removing_page (s\<lparr>page_faults := page_faults s + 1,
        disk_reads := disk_reads s + 1\<rparr>) = Inr (i, s2) \<and> py_slot (frames s2) i = None)"
    "clock_access_memory p w s = Inl (e, s2)"
  | (evict) i j s2 where "p \<notin> clock_pages s" "number_frames s \<le> int (length (frames s))"
    "same_slots (s\<lparr>page_faults := page_faults s + 1, disk_reads := disk_reads s + 1\<rparr>) s2"
    "find_removing_page (s\<lparr>page_faults := page_faults s + 1,
        disk_reads := disk_reads s + 1\<rparr>) = Inr (i, s2)"
    "py_slot (frames s2) i = Some j" "j < length (frames s2)"
    "clock_access_memory p w s =
       Inr (s2\<lparr>disk_writes := disk_writes s + (if dirty (frames s2 ! j) then 1 else 0),
               frames := (frames s2)[j := new_frame p w]\<rparr>)"
proof (cases "clock_hit p w (frames s)")
  case (Some fs')
  then have "p \<in> clock_pages s"
    using clock_hit_None [of p w "frames s"] by (simp add: clock_pages_def)
  moreover from Some have "clock_access_memory p w s = Inr (s\<lparr>frames := fs'\<rparr>)"
    by (simp add: clock_access_memory_def)
  ultimately show ?thesis
    using clock_hit_Some [OF Some] hit [of fs'] by blast
next
  case None
  then have nres: "p \<notin> clock_pages s"
    by (simp add: clock_hit_None clock_pages_def)
  let ?s1 = "s\<lparr>page_faults := page_faults s + 1, disk_reads := disk_reads s + 1\<rparr>"
  show ?thesis
  proof (cases "int (length (frames s)) < number_frames s")
    case True
    with None nres show ?thesis
      using free by (simp add: clock_access_memory_def Let_def)
  next
    case False
    then have full: "number_frames s \<le> int (length (frames s))" by simp
    show ?thesis
    proof (cases "find_removing_page ?s1")
      case (Inl es)
      obtain e s2 where es: "es = (e, s2)" by (cases es)
      with Inl have "same_slots ?s1 s2" using find_same_slots [of ?s1 e s2] by simp
      moreover from None False Inl es have "clock_access_memory p w s = Inl (e, s2)"
        by (simp add: clock_access_memory_def Let_def)
      ultimately show ?thesis using raised nres full Inl es by blast
    next
      case (Inr is2)
      obtain i s2 where is2: "is2 = (i, s2)" by (cases is2)
      with Inr have same: "same_slots ?s1 s2" using find_same_slots [of ?s1 _ s2 i] by simp
      show ?thesis
      proof (cases "py_slot (frames s2) i")
        case slot: None
        with None False Inr is2 have "clock_access_memory p w s = Inl (IndexError, s2)"
          by (simp add: clock_access_memory_def Let_def)
        with raised [OF nres full same] Inr is2 slot show ?thesis by blast
      next
        case (Some j)
        from same have "disk_writes s2 = disk_writes s" by (simp add: same_slots_def)
        with None False Inr is2 Some have "clock_access_memory p w s =
           Inr (s2\<lparr>disk_writes := disk_writes s + (if dirty (frames s2 ! j) then 1 else 0),
               frames := (frames s2)[j := new_frame p w]\<rparr>)"
          by (simp add: clock_access_memory_def Let_def)
        with evict [OF nres full same] Inr is2 Some py_slot_Some [OF Some] show ?thesis
          by blast
      qed
    qed
  qed
qed

lemma same_slots_length: "same_slots s s' \<Longrightarrow> length (frames s') = length (frames s)"
  unfolding same_slots_def by (metis length_map)

lemma clock_evict_full:
  assumes inv: "clock_inv s" and nres: "p \<notin> clock_pages s"
    and full: "number_frames s \<le> int (length (frames s))"
  shows "\<exists>i s2. find_removing_page (s\<lparr>page_faults := page_faults s + 1,
        disk_reads := disk_reads s + 1\<rparr>) = Inr (i, s2) \<and>
      0 \<le> i \<and> i < number_frames s \<and> nat i < length (frames s) \<and>
      reference (frames s2 ! nat i) = 0 \<and>
      clock_hand s2 = (i + 1) mod number_frames s \<and>
      same_slots (s\<lparr>page_faults := page_faults s + 1, disk_reads := disk_reads s + 1\<rparr>) s2 \<and>
      clock_access_memory p w s =
        Inr (s2\<lparr>disk_writes := disk_writes s + (if dirty (frames s2 ! nat i) then 1 else 0),
               frames := (frames s2)[nat i := new_frame p w]\<rparr>)"
proof -
  let ?s1 = "s\<lparr>page_faults := page_faults s + 1, disk_reads := disk_reads s + 1\<rparr>"
  from inv full have eq: "number_frames ?s1 = int (length (frames ?s1))"
    by (simp add: clock_inv_def)
  from inv have inv1: "clock_inv ?s1" by (simp add: clock_inv_def)
  from find_full [OF inv1 eq] obtain i s2 where
    f: "find_removing_page ?s1 = Inr (i, s2)" and i: "0 \<le> i" "i < number_frames s"
    and r: "reference (frames s2 ! nat i) = 0"
    and h: "clock_hand s2 = (i + 1) mod number_frames s"
    by auto
  from f have same: "same_slots ?s1 s2" using find_same_slots [of ?s1 _ s2 i] by simp
  then have len: "length (frames s2) = length (frames s)"
    using same_slots_length [of ?s1 s2] by simp
  from i eq have lt: "nat i < length (frames s)" by simp
  with i len have slot: "py_slot (frames s2) i = Some (nat i)"
    by (simp add: py_slot_in_range)
  have "clock_access_memory p w s =
        Inr (s2\<lparr>disk_writes := disk_writes s + (if dirty (frames s2 ! nat i) then 1 else 0),
               frames := (frames s2)[nat i := new_frame p w]\<rparr>)"
  proof (cases rule: clock_access_cases [where p = p and w = w and s = s])
    case (hit fs')
    with nres show ?thesis by simp
  next
    case free
    with full show ?thesis by simp
  next
    case (raised e s2')
    with f slot show ?thesis by auto
  next
    case (evict i' j s2')
    with f slot show ?thesis by simp
  qed
  with f i r h same lt show ?thesis by blast
qed

lemma clock_step_inv:
  assumes inv: "clock_inv s"
  shows "\<exists>s'. clock_access_memory p w s = Inr s' \<and> clock_inv s' \<and>
     number_frames s' = number_frames s"
proof (cases "p \<in> clock_pages s \<or> int (length (frames s)) < number_frames s")
  case True
  show ?thesis
  proof (cases rule: clock_access_cases [where p = p and w = w and s = s])
    case (hit fs')
    have "length fs' = length (frames s)" using hit(2) by (metis length_map)
    with inv hit show ?thesis by (simp add: clock_inv_def)
  next
    case free
    with inv show ?thesis by (simp add: clock_inv_def clock_pages_def new_frame_def)
  next
    case (raised e s2)
    with True show ?thesis by simp
  next
    case (evict i j s2)
    with True show ?thesis by simp
  qed
next
  case False
  then have nres: "p \<notin> clock_pages s" and full: "number_frames s \<le> int (length (frames s))"
    by simp_all
  from clock_evict_full [OF inv nres full, of w] obtain i s2 where
    i: "0 \<le> i" "i < number_frames s" "nat i < length (frames s)"
    and h: "clock_hand s2 = (i + 1) mod number_frames s"
    and same: "same_slots (s\<lparr>page_faults := page_faults s + 1,
        disk_reads := disk_reads s + 1\<rparr>) s2"
    and acc: "clock_access_memory p w s =
        Inr (s2\<lparr>disk_writes := disk_writes s + (if dirty (frames s2 ! nat i) then 1 else 0),
               frames := (frames s2)[nat i := new_frame p w]\<rparr>)"
    by blast
  from same have pages: "map page (frames s2) = map page (frames s)"
    and nf: "number_frames s2 = number_frames s"
    by (simp_all add: same_slots_def)
  from same have len: "length (frames s2) = length (frames s)"
    using same_slots_length by fastforce
  have "map page ((frames s2)[nat i := new_frame p w]) = (map page (frames s))[nat i := p]"
    by (simp add: map_update pages new_frame_def)
  moreover have "distinct ((map page (frames s))[nat i := p])"
    using inv nres by (intro distinct_list_update) (auto simp: clock_inv_def clock_pages_def)
  ultimately have "distinct (map page ((frames s2)[nat i := new_frame p w]))" by simp
  with inv len nf h i acc show ?thesis
    by (simp add: clock_inv_def hand_step_range)
qed

lemma clock_init_inv: "1 \<le> c \<Longrightarrow> clock_inv (clock_init c)"
  by (simp add: clock_inv_def clock_init_def)

lemma clock_run_inv:
  assumes "clock_inv s"
  shows "\<exists>s'. clock_run s as = Inr s' \<and> clock_inv s' \<and> number_frames s' = number_frames s"
  using assms
proof (induction as arbitrary: s)
  case Nil
  then show ?case by simp
next
  case (Cons a as)
  from clock_step_inv [OF Cons.prems] obtain s1 where
    s1: "clock_do a s = Inr s1" "clock_inv s1" "number_frames s1 = number_frames s"
    unfolding clock_do_eq by blast
  with Cons.IH [of s1] show ?case by simp
qed

lemma clock_reachable:
  assumes "1 \<le> c"
  shows "\<exists>s. clock_run (clock_init c) as = Inr s \<and> clock_inv s \<and> number_frames s = c"
proof -
  have "clock_inv (clock_init c)" using assms by (simp add: clock_init_inv)
  moreover have "number_frames (clock_init c) = c" by (simp add: clock_init_def)
  ultimately show ?thesis using clock_run_inv [of "clock_init c" as] by simp
qed

lemma clock_step_counters:
  "page_faults (final (clock_access_memory p w s)) =
     page_faults s + (if p \<in> clock_pages s then 0 else 1) \<and>
   disk_reads (final (clock_access_memory p w s)) =
     disk_reads s + (if p \<in> clock_pages s then 0 else 1)"
  by (cases rule: clock_access_cases [where p = p and w = w and s = s])
     (simp_all add: final_def same_slots_def)

lemma clock_pages_frames:
  "map page fs = map page (frames s) \<Longrightarrow> clock_pages (s\<lparr>frames := fs\<rparr>) = clock_pages s"
  unfolding clock_pages_def by (simp del: set_map)

lemma clock_step_resident:
  assumes "clock_access_memory p w s = Inr s'"
  shows "p \<in> clock_pages s'"
proof (cases rule: clock_access_cases [where p = p and w = w and s = s])
  case (hit fs')
  with assms clock_pages_frames [OF hit(2)] show ?thesis by auto
next
  case free
  with assms show ?thesis by (auto simp: clock_pages_def new_frame_def)
next
  case (raised e s2)
  with assms show ?thesis by simp
next
  case (evict i j s2)
  from evict(6) have "new_frame p w \<in> set ((frames s2)[j := new_frame p w])"
    by (rule set_update_memI)
  then have "p \<in> page ` set ((frames s2)[j := new_frame p w])"
    by (force simp: new_frame_def)
  with assms evict(7) show ?thesis by (auto simp: clock_pages_def)
qed

lemma clock_run_misses:
  "clock_run s as = Inr s' \<Longrightarrow> page_faults s' = page_faults s + int (clock_misses s as)"
proof (induction as arbitrary: s)
  case Nil
  then show ?case by simp
next
  case (Cons a as)
  then obtain s1 where s1: "clock_do a s = Inr s1" "clock_run s1 as = Inr s'"
    by (auto split: sum.splits)
  have "page_faults s1 = page_faults s + (if page_of a \<in> clock_pages s then 0 else 1)"
    using clock_step_counters [of "page_of a" "is_write_of a" s] s1(1)
    by (simp add: clock_do_eq final_def)
  with Cons.IH [OF s1(2)] s1(1) show ?case by (simp add: final_def)
qed

lemma clock_run_final:
  assumes "P s" and step: "\<And>s a. P s \<Longrightarrow> P (final (clock_do a s))"
  shows "P (final (clock_run s as))"
  using assms(1)
proof (induction as arbitrary: s)
  case Nil
  then show ?case by (simp add: final_def)
next
  case (Cons a as)
  show ?case
  proof (cases "clock_do a s")
    case (Inl e)
    with step [OF Cons.prems, of a] show ?thesis by (simp add: final_def)
  next
    case (Inr s1)
    with step [OF Cons.prems, of a] have "P s1" by (simp add: final_def)
    with Cons.IH [of s1] Inr show ?thesis by simp
  qed
qed

lemma clock_run_reads_eq_faults:
  "disk_reads (final (clock_run (clock_init c) as)) =
   page_faults (final (clock_run (clock_init c) as))"
proof (rule clock_run_final [where P = "\<lambda>s. disk_reads s = page_faults s"])
  show "disk_reads (clock_init c) = page_faults (clock_init c)" by (simp add: clock_init_def)
next
  fix s :: clock_mmu and a
  assume "disk_reads s = page_faults s"
  then show "disk_reads (final (clock_do a s)) = page_faults (final (clock_do a s))"
    using clock_step_counters [of "page_of a" "is_write_of a" s] by (simp add: clock_do_eq)
qed

lemma map_dirty_clean:
  assumes "map dirty fs' = map dirty fs" "\<forall>f\<in>set fs. \<not> dirty f"
  shows "\<forall>f\<in>set fs'. \<not> dirty f"
proof -
  from assms(1) have "dirty ` set fs' = dirty ` set fs" by (metis set_map)
  with assms(2) show ?thesis by blast
qed

lemma clock_read_clean:
  assumes "clock_clean s"
  shows "clock_clean (final (clock_access_memory p False s))"
proof (cases rule: clock_access_cases [where p = p and w = False and s = s])
  case (hit fs')
  with assms map_dirty_clean [of fs' "frames s"] show ?thesis
    by (simp add: final_def clock_clean_def)
next
  case free
  with assms show ?thesis by (simp add: final_def clock_clean_def new_frame_def)
next
  case (raised e s2)
  with assms map_dirty_clean [of "frames s2" "frames s"] show ?thesis
    by (simp add: final_def clock_clean_def same_slots_def)
next
  case (evict i j s2)
  from evict(3) assms have clean2: "\<forall>f\<in>set (frames s2). \<not> dirty f"
    using map_dirty_clean [of "frames s2" "frames s"]
    by (simp add: clock_clean_def same_slots_def)
  with evict(6) have "\<not> dirty (frames s2 ! j)" by simp
  moreover have "\<forall>f\<in>set ((frames s2)[j := new_frame p False]). \<not> dirty f"
    using clean2 set_update_subset_insert [of "frames s2" j "new_frame p False"]
    by (auto simp: new_frame_def)
  ultimately show ?thesis
    using evict(7) assms by (simp add: final_def clock_clean_def)
qed

lemma clock_no_writes:
  assumes "\<forall>a\<in>set as. \<not> is_write_of a"
  shows "disk_writes (final (clock_run (clock_init c) as)) = 0"
proof -
  have "clock_clean s \<Longrightarrow> \<forall>a\<in>set as. \<not> is_write_of a \<Longrightarrow> clock_clean (final (clock_run s as))"
    for s
  proof (induction as arbitrary: s)
    case Nil
    then show ?case by (simp add: final_def)
  next
    case (Cons a as)
    from Cons.prems have "clock_clean (final (clock_do a s))"
      using clock_read_clean [of s "page_of a"] by (simp add: clock_do_eq)
    with Cons show ?case
      by (cases "clock_do a s") (auto simp: final_def clock_clean_def)
  qed
  moreover have "clock_clean (clock_init c)" by (simp add: clock_clean_def clock_init_def)
  ultimately show ?thesis using assms by (simp add: clock_clean_def)
qed

lemma clock_step_writes:
  assumes inv: "clock_inv s"
  shows "\<exists>s'. clock_access_memory p w s = Inr s' \<and>
     disk_writes s' = disk_writes s +
       (if \<exists>f\<in>set (frames s). page f \<notin> clock_pages s' \<and> dirty f then 1 else 0)"
proof (cases "p \<in> clock_pages s \<or> int (length (frames s)) < number_frames s")
  case True
  show ?thesis
  proof (cases rule: clock_access_cases [where p = p and w = w and s = s])
    case (hit fs')
    have "\<not> (\<exists>f\<in>set (frames s). page f \<notin> clock_pages (s\<lparr>frames := fs'\<rparr>) \<and> dirty f)"
      unfolding clock_pages_frames [OF hit(2)] by (simp add: clock_pages_def)
    with hit(4) show ?thesis by simp
  next
    case free
    then show ?thesis by (simp add: clock_pages_def)
  next
    case (raised e s2)
    with True show ?thesis by simp
  next
    case (evict i j s2)
    with True show ?thesis by simp
  qed
next
  case False
  then have nres: "p \<notin> clock_pages s" and full: "number_frames s \<le> int (length (frames s))"
    by simp_all
  from clock_evict_full [OF inv nres full, of w] obtain i s2 where
    i: "nat i < length (frames s)"
    and same: "same_slots (s\<lparr>page_faults := page_faults s + 1,
        disk_reads := disk_reads s + 1\<rparr>) s2"
    and acc: "clock_access_memory p w s =
        Inr (s2\<lparr>disk_writes := disk_writes s + (if dirty (frames s2 ! nat i) then 1 else 0),
               frames := (frames s2)[nat i := new_frame p w]\<rparr>)"
    by blast
  let ?j = "nat i"
  let ?s' = "s2\<lparr>disk_writes := disk_writes s + (if dirty (frames s2 ! ?j) then 1 else 0),
               frames := (frames s2)[?j := new_frame p w]\<rparr>"
  from same have pages: "map page (frames s2) = map page (frames s)"
    and dirt: "map dirty (frames s2) = map dirty (frames s)"
    by (simp_all add: same_slots_def)
  from inv have dist: "distinct (map page (frames s))" by (simp add: clock_inv_def)
  have "map page (frames ?s') = (map page (frames s))[?j := p]"
    by (simp add: map_update pages new_frame_def)
  then have "clock_pages ?s' = set ((map page (frames s))[?j := p])"
    by (simp add: clock_pages_def del: set_map)
  also have "\<dots> = insert p (set (map page (frames s)) - {map page (frames s) ! ?j})"
    using dist i by (intro set_update_distinct) simp_all
  finally have pg: "clock_pages ?s' = insert p (clock_pages s - {page (frames s ! ?j)})"
    using i by (simp add: clock_pages_def)
  have d: "dirty (frames s2 ! ?j) = dirty (frames s ! ?j)"
    using dirt i by (metis length_map nth_map)
  have "(\<exists>f\<in>set (frames s). page f \<notin> clock_pages ?s' \<and> dirty f) \<longleftrightarrow> dirty (frames s ! ?j)"
  proof
    assume "\<exists>f\<in>set (frames s). page f \<notin> clock_pages ?s' \<and> dirty f"
    then obtain f where f: "f \<in> set (frames s)" "page f \<notin> clock_pages ?s'" "dirty f"
      by blast
    from f(1,2) have "page f = page (frames s ! ?j)"
      unfolding pg by (auto simp: clock_pages_def)
    moreover from f(1) obtain k where k: "k < length (frames s)" "f = frames s ! k"
      by (auto simp: in_set_conv_nth)
    ultimately have "k = ?j"
      using dist i by (simp add: distinct_conv_nth) (metis length_map nth_map)
    with k f(3) show "dirty (frames s ! ?j)" by simp
  next
    assume "dirty (frames s ! ?j)"
    moreover have "frames s ! ?j \<in> set (frames s)" using i by simp
    moreover have "page (frames s ! ?j) \<notin> clock_pages ?s'"
      unfolding pg using nres i by (auto simp: clock_pages_def)
    ultimately show "\<exists>f\<in>set (frames s). page f \<notin> clock_pages ?s' \<and> dirty f" by blast
  qed
  with acc d show ?thesis by simp
qed

lemma resident_clean_cong:
  assumes "map page fs' = map page fs" "map dirty fs' = map dirty fs"
    and "\<exists>f\<in>set fs. page f = p \<and> \<not> dirty f"
  shows "\<exists>f\<in>set fs'. page f = p \<and> \<not> dirty f"
proof -
  from assms(3) obtain k where k: "k < length fs" "page (fs ! k) = p" "\<not> dirty (fs ! k)"
    by (auto simp: in_set_conv_nth)
  from assms(1) have len: "length fs' = length fs" by (metis length_map)
  with k(1) have "page (fs' ! k) = page (fs ! k)" "dirty (fs' ! k) = dirty (fs ! k)"
    using assms(1,2) by (metis nth_map)+
  moreover from k(1) len have "fs' ! k \<in> set fs'" by simp
  ultimately show ?thesis using k(2,3) by (intro bexI [of _ "fs' ! k"]) simp_all
qed

lemma clock_hit_clean_read:
  assumes "\<exists>f\<in>set (frames s). page f = p \<and> \<not> dirty f"
  shows "\<exists>s'. clock_run s (replicate n (Read p)) = Inr s' \<and>
     (\<exists>f\<in>set (frames s'). page f = p \<and> \<not> dirty f) \<and>
     disk_reads s' = disk_reads s \<and> disk_writes s' = disk_writes s \<and>
     page_faults s' = page_faults s"
  using assms
proof (induction n arbitrary: s)
  case 0
  then show ?case by simp
next
  case (Suc n)
  from Suc.prems have res: "p \<in> clock_pages s" by (auto simp: clock_pages_def)
  then obtain fs' where fs': "map page fs' = map page (frames s)"
    "map dirty fs' = map dirty (frames s)"
    "clock_do (Read p) s = Inr (s\<lparr>frames := fs'\<rparr>)"
    by (cases rule: clock_access_cases [where p = p and w = False and s = s])
       (simp_all add: clock_read_memory_def)
  from resident_clean_cong [OF fs'(1,2) Suc.prems]
  have "\<exists>f\<in>set (frames (s\<lparr>frames := fs'\<rparr>)). page f = p \<and> \<not> dirty f" by simp
  from Suc.IH [OF this] fs'(3) show ?case by simp
qed

lemma rand_do_eq:
  "rand_do a s = rand_access_memory (fst a) (page_of (snd a)) (is_write_of (snd a)) s"
  by (cases a, cases "snd a") (simp_all add: rand_read_memory_def rand_write_memory_def)

lemma map_entry_id: "AList.map_entry k (\<lambda>f. f) al = al"
  by (induction al) auto

lemma random_choice_Some:
  assumes "xs \<noteq> []"
  obtains v where "random_choice draw xs = Some v" "v \<in> set xs"
  using assms by (simp add: random_choice_def)

lemma rand_access_cases:
  obtains (hit) "p \<in> fst ` set (frames s)"
    "rand_access_memory draw p w s =
      Inr (s\<lparr>frames := AList.map_entry p (\<lambda>f. f\<lparr>dirty := (w \<or> dirty f)\<rparr>) (frames s)\<rparr>)"
  | (free) "p \<notin> fst ` set (frames s)" "int (length (frames s)) < number_frames s"
    "rand_access_memory draw p w s =
      Inr (s\<lparr>page_faults := page_faults s + 1, disk_reads := disk_reads s + 1,
           frames := frames s @ [(p, \<lparr>dirty = w\<rparr>)]\<rparr>)"
  | (error) "p \<notin> fst ` set (frames s)" "number_frames s \<le> int (length (frames s))"
    "frames s = []"
    "rand_access_memory draw p w s =
      Inl (IndexError, s\<lparr>page_faults := page_faults s + 1, disk_reads := disk_reads s + 1\<rparr>)"
  | (evict) v where "p \<notin> fst ` set (frames s)" "number_frames s \<le> int (length (frames s))"
    "random_choice draw (map fst (frames s)) = Some v" "v \<in> fst ` set (frames s)"
    "rand_access_memory draw p w s =
      Inr (s\<lparr>page_faults := page_faults s + 1, disk_reads := disk_reads s + 1,
           disk_writes := disk_writes s +
              (if dirty (the (map_of (frames s) v)) then 1 else 0),
           frames := AList.delete v (frames s) @ [(p, \<lparr>dirty = w\<rparr>)]\<rparr>)"
proof (cases "p \<in> fst ` set (frames s)")
  case True
  then have "rand_access_memory draw p w s =
      Inr (s\<lparr>frames := AList.map_entry p (\<lambda>f. f\<lparr>dirty := (w \<or> dirty f)\<rparr>) (frames s)\<rparr>)"
    by (cases w) (simp_all add: rand_access_memory_def map_entry_id)
  with True show ?thesis using hit by blast
next
  case nres: False
  show ?thesis
  proof (cases "int (length (frames s)) < number_frames s")
    case True
    with nres have "rand_access_memory draw p w s =
      Inr (s\<lparr>page_faults := page_faults s + 1, disk_reads := disk_reads s + 1,
           frames := frames s @ [(p, \<lparr>dirty = w\<rparr>)]\<rparr>)"
      by (simp add: rand_access_memory_def Let_def rand_load_def update_fresh)
    with nres True show ?thesis using free by blast
  next
    case False
    then have full: "number_frames s \<le> int (length (frames s))" by simp
    show ?thesis
    proof (cases "frames s = []")
      case True
      with nres full have "rand_access_memory draw p w s =
        Inl (IndexError, s\<lparr>page_faults := page_faults s + 1, disk_reads := disk_reads s + 1\<rparr>)"
        by (simp add: rand_access_memory_def Let_def random_choice_def)
      with nres full True show ?thesis using error by blast
    next
      case False
      then have "map fst (frames s) \<noteq> []" by simp
      then obtain v where v: "random_choice draw (map fst (frames s)) = Some v"
        "v \<in> set (map fst (frames s))"
        by (rule random_choice_Some)
      have "p \<notin> fst ` set (AList.delete v (frames s))"
        using nres by (simp add: dom_delete)
      with nres full v(1) have "rand_access_memory draw p w s =
        Inr (s\<lparr>page_faults := page_faults s + 1, disk_reads := disk_reads s + 1,
           disk_writes := disk_writes s +
              (if dirty (the (map_of (frames s) v)) then 1 else 0),
           frames := AList.delete v (frames s) @ [(p, \<lparr>dirty = w\<rparr>)]\<rparr>)"
        by (simp add: rand_access_memory_def Let_def rand_load_def update_fresh)
      with evict [OF nres full v(1)] v(2) show ?thesis by simp
    qed
  qed
qed

lemma rand_step_inv:
  assumes inv: "rand_inv s" and c: "1 \<le> number_frames s"
  shows "\<exists>s'. rand_access_memory draw p w s = Inr s' \<and> rand_inv s' \<and>
     number_frames s' = number_frames s"
proof (cases rule: rand_access_cases [where p = p and w = w and s = s and draw = draw])
  case hit
  with inv show ?thesis
    by (simp add: rand_inv_def length_map_entry map_fst_map_entry)
next
  case free
  with inv show ?thesis by (simp add: rand_inv_def)
next
  case error
  with c show ?thesis by simp
next
  case (evict v)
  have "length (AList.delete v (frames s)) < length (frames s)"
    using evict(4) by (rule length_delete_less)
  with inv evict show ?thesis
    by (simp add: rand_inv_def dom_delete AList.distinct_delete)
qed

lemma rand_run_inv:
  assumes "rand_inv s" "1 \<le> number_frames s"
  shows "\<exists>s'. rand_run s as = Inr s' \<and> rand_inv s' \<and> number_frames s' = number_frames s"
  using assms
proof (induction as arbitrary: s)
  case Nil
  then show ?case by simp
next
  case (Cons a as)
  from rand_step_inv [OF Cons.prems] obtain s1 where
    s1: "rand_do a s = Inr s1" "rand_inv s1" "number_frames s1 = number_frames s"
    unfolding rand_do_eq by blast
  with Cons.IH [of s1] Cons.prems(2) show ?case by simp
qed

lemma rand_reachable:
  assumes "1 \<le> c"
  shows "\<exists>s. rand_run (rand_init c) as = Inr s \<and> rand_inv s \<and> number_frames s = c"
proof -
  have "rand_inv (rand_init c)" using assms by (simp add: rand_inv_def rand_init_def)
  moreover have "number_frames (rand_init c) = c" by (simp add: rand_init_def)
  ultimately show ?thesis using rand_run_inv [of "rand_init c" as] assms by simp
qed

lemma rand_step_counters:
  "page_faults (final (rand_access_memory draw p w s)) =
     page_faults s + (if p \<in> rand_pages s then 0 else 1) \<and>
   disk_reads (final (rand_access_memory draw p w s)) =
     disk_reads s + (if p \<in> rand_pages s then 0 else 1)"
  by (cases rule: rand_access_cases [where p = p and w = w and s = s and draw = draw])
     (simp_all add: final_def rand_pages_def)

lemma rand_run_misses:
  "rand_run s as = Inr s' \<Longrightarrow> page_faults s' = page_faults s + int (rand_misses s as)"
proof (induction as arbitrary: s)
  case Nil
  then show ?case by simp
next
  case (Cons a as)
  then obtain s1 where s1: "rand_do a s = Inr s1" "rand_run s1 as = Inr s'"
    by (auto split: sum.splits)
  have "page_faults s1 = page_faults s + (if page_of (snd a) \<in> rand_pages s then 0 else 1)"
    using rand_step_counters [of "fst a" "page_of (snd a)" "is_write_of (snd a)" s] s1(1)
    by (simp add: rand_do_eq final_def)
  with Cons.IH [OF s1(2)] s1(1) show ?case by (simp add: final_def)
qed

lemma rand_run_final:
  assumes "P s" and step: "\<And>s a. P s \<Longrightarrow> P (final (rand_do a s))"
  shows "P (final (rand_run s as))"
  using assms(1)
proof (induction as arbitrary: s)
  case Nil
  then show ?case by (simp add: final_def)
next
  case (Cons a as)
  show ?case
  proof (cases "rand_do a s")
    case (Inl e)
    with step [OF Cons.prems, of a] show ?thesis by (simp add: final_def)
  next
    case (Inr s1)
    with step [OF Cons.prems, of a] have "P s1" by (simp add: final_def)
    with Cons.IH [of s1] Inr show ?thesis by simp
  qed
qed

lemma rand_run_reads_eq_faults:
  "disk_reads (final (rand_run (rand_init c) as)) =
   page_faults (final (rand_run (rand_init c) as))"
proof (rule rand_run_final [where P = "\<lambda>s. disk_reads s = page_faults s"])
  show "disk_reads (rand_init c) = page_faults (rand_init c)" by (simp add: rand_init_def)
next
  fix s :: rand_mmu and a
  assume "disk_reads s = page_faults s"
  then show "disk_reads (final (rand_do a s)) = page_faults (final (rand_do a s))"
    using rand_step_counters [of "fst a" "page_of (snd a)" "is_write_of (snd a)" s]
    by (simp add: rand_do_eq)
qed

lemma rand_step_resident:
  assumes "rand_access_memory draw p w s = Inr s'"
  shows "p \<in> rand_pages s'"
proof (cases rule: rand_access_cases [where p = p and w = w and s = s and draw = draw])
  case hit
  with assms have "s' = s\<lparr>frames := AList.map_entry p (\<lambda>f. f\<lparr>dirty := (w \<or> dirty f)\<rparr>)
      (frames s)\<rparr>"
    by simp
  then have "rand_pages s' = fst ` set (frames s)"
    by (simp add: rand_pages_def AList.dom_map_entry)
  with hit(1) show ?thesis by simp
qed (use assms in \<open>auto simp: rand_pages_def\<close>)

lemma rand_read_clean:
  assumes "rand_clean s"
  shows "rand_clean (final (rand_access_memory draw p False s))"
proof (cases rule: rand_access_cases [where p = p and w = False and s = s and draw = draw])
  case hit
  with assms show ?thesis
    by (auto simp: final_def rand_clean_def AList.map_of_map_entry split: option.splits if_splits)
next
  case free
  with assms show ?thesis
    by (auto simp: final_def rand_clean_def map_add_def split: option.splits if_splits)
next
  case error
  with assms show ?thesis by (simp add: final_def rand_clean_def)
next
  case (evict v)
  from evict(4) obtain f where f: "map_of (frames s) v = Some f"
    by (metis map_of_eq_None_iff not_None_eq)
  with assms have "\<not> dirty (the (map_of (frames s) v))" by (simp add: rand_clean_def)
  with evict assms show ?thesis
    by (auto simp: final_def rand_clean_def map_add_def AList.delete_conv'
        split: option.splits if_splits)
qed

lemma rand_no_writes:
  assumes "\<forall>a\<in>set as. \<not> is_write_of (snd a)"
  shows "disk_writes (final (rand_run (rand_init c) as)) = 0"
proof -
  have "rand_clean s \<Longrightarrow> \<forall>a\<in>set as. \<not> is_write_of (snd a) \<Longrightarrow>
      rand_clean (final (rand_run s as))" for s
  proof (induction as arbitrary: s)
    case Nil
    then show ?case by (simp add: final_def)
  next
    case (Cons a as)
    from Cons.prems have "rand_clean (final (rand_do a s))"
      using rand_read_clean [of s "fst a" "page_of (snd a)"] by (simp add: rand_do_eq)
    with Cons show ?case
      by (cases "rand_do a s") (auto simp: final_def rand_clean_def)
  qed
  moreover have "rand_clean (rand_init c)" by (simp add: rand_clean_def rand_init_def)
  ultimately show ?thesis using assms by (simp add: rand_clean_def)
qed

lemma rand_step_writes:
  assumes "rand_inv s" "1 \<le> number_frames s"
  shows "\<exists>s'. rand_access_memory draw p w s = Inr s' \<and>
     disk_writes s' = disk_writes s +
       (if \<exists>v f. map_of (frames s) v = Some f \<and> v \<notin> rand_pages s' \<and> dirty f then 1 else 0)"
proof (cases rule: rand_access_cases [where p = p and w = w and s = s and draw = draw])
  case hit
  then show ?thesis
    by (auto simp: rand_pages_def AList.dom_map_entry dest: map_of_Some_dom)
next
  case free
  then show ?thesis
    by (auto simp: rand_pages_def dest: map_of_Some_dom)
next
  case error
  with assms show ?thesis by simp
next
  case (evict v)
  from evict(4) obtain f where f: "map_of (frames s) v = Some f"
    by (metis map_of_eq_None_iff not_None_eq)
  have "(\<exists>v' f'. map_of (frames s) v' = Some f' \<and>
          v' \<notin> insert p (fst ` set (AList.delete v (frames s))) \<and> dirty f') \<longleftrightarrow> dirty f"
    using f evict(1) evict(4) by (auto simp: dom_delete dest: map_of_Some_dom)
  with evict(5) f show ?thesis
    by (simp add: rand_pages_def)
qed

lemma rand_hit_clean_read:
  assumes "map_of (frames s) p = Some f" "\<not> dirty f"
  shows "\<exists>s' f'. rand_run s (map (\<lambda>d. (d, Read p)) ds) = Inr s' \<and>
     map_of (frames s') p = Some f' \<and> \<not> dirty f' \<and>
     disk_reads s' = disk_reads s \<and> disk_writes s' = disk_writes s \<and>
     page_faults s' = page_faults s"
  using assms
proof (induction ds arbitrary: s f)
  case Nil
  then show ?case by simp
next
  case (Cons d ds)
  from Cons.prems have "p \<in> fst ` set (frames s)" by (auto dest: map_of_Some_dom)
  then have s1: "rand_do (d, Read p) s = Inr s"
    by (simp add: rand_read_memory_def rand_access_memory_def)
  from Cons.IH [OF Cons.prems] s1 show ?case by simp
qed

lemma lru_run_append:
  "lru_run s (as @ bs) = (case lru_run s as of Inl e \<Rightarrow> Inl e | Inr s' \<Rightarrow> lru_run s' bs)"
  by (induction as arbitrary: s) (auto split: sum.splits)

lemma clock_run_append:
  "clock_run s (as @ bs) = (case clock_run s as of Inl e \<Rightarrow> Inl e | Inr s' \<Rightarrow> clock_run s' bs)"
  by (induction as arbitrary: s) (auto split: sum.splits)

lemma rand_run_append:
  "rand_run s (as @ bs) = (case rand_run s as of Inl e \<Rightarrow> Inl e | Inr s' \<Rightarrow> rand_run s' bs)"
  by (induction as arbitrary: s) (auto split: sum.splits)

lemma lru_misses_first: "as \<noteq> [] \<Longrightarrow> 1 \<le> lru_misses (lru_init c) as"
  by (cases as) (simp_all add: lru_pages_def lru_init_def)

lemma clock_misses_first: "as \<noteq> [] \<Longrightarrow> 1 \<le> clock_misses (clock_init c) as"
  by (cases as) (simp_all add: clock_pages_def clock_init_def)

lemma rand_misses_first: "as \<noteq> [] \<Longrightarrow> 1 \<le> rand_misses (rand_init c) as"
  by (cases as) (simp_all add: rand_pages_def rand_init_def)

lemma lru_faults:
  assumes "1 \<le> c"
  shows "\<exists>s. lru_run (lru_init c) as = Inr s \<and>
     get_total_page_faults s = int (lru_misses (lru_init c) as) \<and>
     (as \<noteq> [] \<longrightarrow> 1 \<le> get_total_page_faults s)"
proof -
  from lru_reachable [OF assms] obtain s where s: "lru_run (lru_init c) as = Inr s" by blast
  from lru_run_misses [OF s] have "page_faults s = int (lru_misses (lru_init c) as)"
    by (simp add: lru_init_def)
  with s lru_misses_first [of as c] show ?thesis
    by (auto simp: get_total_page_faults_def)
qed

lemma clock_faults:
  assumes "1 \<le> c"
  shows "\<exists>s. clock_run (clock_init c) as = Inr s \<and>
     get_total_page_faults s = int (clock_misses (clock_init c) as) \<and>
     (as \<noteq> [] \<longrightarrow> 1 \<le> get_total_page_faults s)"
proof -
  from clock_reachable [OF assms] obtain s where s: "clock_run (clock_init c) as = Inr s"
    by blast
  from clock_run_misses [OF s] have "page_faults s = int (clock_misses (clock_init c) as)"
    by (simp add: clock_init_def)
  with s clock_misses_first [of as c] show ?thesis
    by (auto simp: get_total_page_faults_def)
qed

lemma rand_faults:
  assumes "1 \<le> c"
  shows "\<exists>s. rand_run (rand_init c) as = Inr s \<and>
     get_total_page_faults s = int (rand_misses (rand_init c) as) \<and>
     (as \<noteq> [] \<longrightarrow> 1 \<le> get_total_page_faults s)"
proof -
  from rand_reachable [OF assms] obtain s where s: "rand_run (rand_init c) as = Inr s"
    by blast
  from rand_run_misses [OF s] have "page_faults s = int (rand_misses (rand_init c) as)"
    by (simp add: rand_init_def)
  with s rand_misses_first [of as c] show ?thesis
    by (auto simp: get_total_page_faults_def)
qed

subsection \<open>Page faults count the misses\<close>

text \<open>
  C1. For each of the three policies built with a capacity of at least 1 and for every finite
  sequence of accesses, the run returns normally and \<open>get_total_page_faults\<close> is the
  number of accesses whose page was not resident when the access was processed; it is
  at least 1 as soon as the sequence is not empty.
\<close>

theorem page_faults_count_misses:
  assumes "1 \<le> c"
  shows "(\<exists>s. lru_run (lru_init c) as = Inr s \<and>
            get_total_page_faults s = int (lru_misses (lru_init c) as) \<and>
            (as \<noteq> [] \<longrightarrow> 1 \<le> get_total_page_faults s)) \<and>
         (\<exists>s. clock_run (clock_init c) as = Inr s \<and>
            get_total_page_faults s = int (clock_misses (clock_init c) as) \<and>
            (as \<noteq> [] \<longrightarrow> 1 \<le> get_total_page_faults s)) \<and>
         (\<exists>s. rand_run (rand_init c) ras = Inr s \<and>
            get_total_page_faults s = int (rand_misses (rand_init c) ras) \<and>
            (ras \<noteq> [] \<longrightarrow> 1 \<le> get_total_page_faults s))"
  using lru_faults [OF assms] clock_faults [OF assms] rand_faults [OF assms] by blast

theorem page_faults_count_misses_witness:
  "(1::int) \<le> 2 \<and>
   (\<exists>s. lru_run (lru_init 2) [Read 1, Read 2, Read 1, Write 3] = Inr s \<and>
      get_total_page_faults s = int (lru_misses (lru_init 2) [Read 1, Read 2, Read 1, Write 3]) \<and>
      1 \<le> get_total_page_faults s) \<and>
   (\<exists>s. clock_run (clock_init 2) [Read 1, Read 2, Read 1, Write 3] = Inr s \<and>
      get_total_page_faults s =
        int (clock_misses (clock_init 2) [Read 1, Read 2, Read 1, Write 3]) \<and>
      1 \<le> get_total_page_faults s) \<and>
   (\<exists>s. rand_run (rand_init 2) [(0, Read 1), (0, Read 2), (0, Read 1), (1, Write 3)] = Inr s \<and>
      get_total_page_faults s =
        int (rand_misses (rand_init 2) [(0, Read 1), (0, Read 2), (0, Read 1), (1, Write 3)]) \<and>
      1 \<le> get_total_page_faults s) \<and>
   lru_misses (lru_init 2) [Read 1, Read 2, Read 1, Write 3] = 3 \<and>
   clock_misses (clock_init 2) [Read 1, Read 2, Read 1, Write 3] = 3 \<and>
   rand_misses (rand_init 2) [(0, Read 1), (0, Read 2), (0, Read 1), (1, Write 3)] = 3"
proof -
  have l: "lru_misses (lru_init 2) [Read 1, Read 2, Read 1, Write 3] = 3"
    by (simp add: lru_init_def lru_pages_def final_def lru_read_memory_def
        lru_access_memory_def lru_load_def lru_removing_page_def Let_def)
  have k: "clock_misses (clock_init 2) [Read 1, Read 2, Read 1, Write 3] = 3"
    by (simp add: clock_init_def clock_pages_def final_def clock_read_memory_def
        clock_access_memory_def new_frame_def Let_def)
  have r: "rand_misses (rand_init 2) [(0, Read 1), (0, Read 2), (0, Read 1), (1, Write 3)] = 3"
    by (simp add: rand_init_def rand_pages_def final_def rand_read_memory_def
        rand_access_memory_def rand_load_def random_choice_def Let_def)
  have h: "(1::int) \<le> 2" by simp
  have ne: "[Read 1, Read 2, Read 1, Write 3] \<noteq> []"
    "[(0::nat, Read 1), (0, Read 2), (0, Read 1), (1, Write 3)] \<noteq> []" by simp_all
  from page_faults_count_misses [OF h, of "[Read 1, Read 2, Read 1, Write 3]"
      "[(0, Read 1), (0, Read 2), (0, Read 1), (1, Write 3)]"] h l k r ne
  show ?thesis by blast
qed

subsection \<open>Disk reads equal page faults\<close>

text \<open>
  C2. For each of the three policies and every finite sequence of accesses, after every
  prefix of the sequence \<open>get_total_disk_reads\<close> equals \<open>get_total_page_faults\<close>; an
  access to a page that is not resident adds exactly one to both counters, any other access
  leaves both as they are. The object is read as the run leaves it, also when an access
  raises.
\<close>

theorem disk_reads_equal_page_faults:
  "get_total_disk_reads (final (lru_run (lru_init c) (take n as))) =
     get_total_page_faults (final (lru_run (lru_init c) (take n as))) \<and>
   get_total_disk_reads (final (clock_run (clock_init c) (take n as))) =
     get_total_page_faults (final (clock_run (clock_init c) (take n as))) \<and>
   get_total_disk_reads (final (rand_run (rand_init c) (take n ras))) =
     get_total_page_faults (final (rand_run (rand_init c) (take n ras))) \<and>
   get_total_page_faults (final (lru_do a sl)) =
     get_total_page_faults sl + (if page_of a \<in> lru_pages sl then 0 else 1) \<and>
   get_total_disk_reads (final (lru_do a sl)) =
     get_total_disk_reads sl + (if page_of a \<in> lru_pages sl then 0 else 1) \<and>
   get_total_page_faults (final (clock_do a sc)) =
     get_total_page_faults sc + (if page_of a \<in> clock_pages sc then 0 else 1) \<and>
   get_total_disk_reads (final (clock_do a sc)) =
     get_total_disk_reads sc + (if page_of a \<in> clock_pages sc then 0 else 1) \<and>
   get_total_page_faults (final (rand_do (d, a) sr)) =
     get_total_page_faults sr + (if page_of a \<in> rand_pages sr then 0 else 1) \<and>
   get_total_disk_reads (final (rand_do (d, a) sr)) =
     get_total_disk_reads sr + (if page_of a \<in> rand_pages sr then 0 else 1)"
  using lru_run_reads_eq_faults [of c "take n as"]
    clock_run_reads_eq_faults [of c "take n as"]
    rand_run_reads_eq_faults [of c "take n ras"]
    lru_step_counters [of "page_of a" "is_write_of a" sl]
    clock_step_counters [of "page_of a" "is_write_of a" sc]
    rand_step_counters [of d "page_of a" "is_write_of a" sr]
  by (simp add: get_total_disk_reads_def get_total_page_faults_def lru_do_eq clock_do_eq
      rand_do_eq)

theorem disk_reads_equal_page_faults_witness:
  "get_total_disk_reads (final (lru_run (lru_init 2) (take 3 [Read 1, Write 2, Read 3, Read 1]))) = 3 \<and>
   get_total_page_faults (final (lru_run (lru_init 2) (take 3 [Read 1, Write 2, Read 3, Read 1]))) = 3 \<and>
   get_total_disk_reads (final (clock_run (clock_init 2) (take 3 [Read 1, Write 2, Read 3, Read 1]))) = 3 \<and>
   get_total_page_faults (final (clock_run (clock_init 2) (take 3 [Read 1, Write 2, Read 3, Read 1]))) = 3 \<and>
   get_total_disk_reads (final (rand_run (rand_init 2)
      (take 3 [(0, Read 1), (4, Write 2), (1, Read 3), (0, Read 1)]))) = 3 \<and>
   get_total_page_faults (final (rand_run (rand_init 2)
      (take 3 [(0, Read 1), (4, Write 2), (1, Read 3), (0, Read 1)]))) = 3"
proof -
  have l: "get_total_page_faults
      (final (lru_run (lru_init 2) (take 3 [Read 1, Write 2, Read 3, Read 1]))) = 3"
    by (simp add: lru_init_def final_def lru_read_memory_def lru_write_memory_def
        lru_access_memory_def lru_load_def lru_removing_page_def Let_def
        get_total_page_faults_def)
  have k: "get_total_page_faults
      (final (clock_run (clock_init 2) (take 3 [Read 1, Write 2, Read 3, Read 1]))) = 3"
    by (simp add: clock_init_def final_def clock_read_memory_def clock_write_memory_def
        clock_access_memory_def new_frame_def Let_def get_total_page_faults_def
        find_removing_page.simps find_removing_page_body_def py_slot_def)
  have r: "get_total_page_faults (final (rand_run (rand_init 2)
      (take 3 [(0, Read 1), (4, Write 2), (1, Read 3), (0, Read 1)]))) = 3"
    by (simp add: rand_init_def final_def rand_read_memory_def rand_write_memory_def
        rand_access_memory_def rand_load_def random_choice_def Let_def
        get_total_page_faults_def)
  from disk_reads_equal_page_faults [of 2 3 "[Read 1, Write 2, Read 3, Read 1]"
      "[(0, Read 1), (4, Write 2), (1, Read 3), (0, Read 1)]"]
  show ?thesis unfolding l k r by blast
qed

subsection \<open>A capacity that is not positive\<close>

text \<open>
  C3, as the code has it. None of the three constructors checks its argument: with a
  capacity of 0 or less the constructor returns an object with an empty resident set and
  counters at 0, and it is the first access that raises, \<open>ValueError\<close> for LRU (\<open>min\<close>
  of an empty dict), \<open>IndexError\<close> for Clock (\<open>self.frames[self.clock_hand]\<close> on an
  empty list) and Random (\<open>random.choice\<close> of an empty list), after the fault and the disk
  read have been counted.
\<close>

theorem nonpositive_capacity_fails_at_first_access:
  assumes "c \<le> 0"
  shows "lru_init c = \<lparr>number_frames = c, frames = [], page_faults = 0, disk_reads = 0,
            disk_writes = 0, debug = False, recency_tracker = 0\<rparr> \<and>
         clock_init c = \<lparr>number_frames = c, frames = [], page_faults = 0, disk_reads = 0,
            disk_writes = 0, debug = False, clock_hand = 0\<rparr> \<and>
         rand_init c = \<lparr>number_frames = c, frames = [], page_faults = 0, disk_reads = 0,
            disk_writes = 0, debug = False\<rparr> \<and>
         lru_do a (lru_init c) = Inl (ValueError, \<lparr>number_frames = c, frames = [],
            page_faults = 1, disk_reads = 1, disk_writes = 0, debug = False,
            recency_tracker = 1\<rparr>) \<and>
         clock_do a (clock_init c) = Inl (IndexError, \<lparr>number_frames = c, frames = [],
            page_faults = 1, disk_reads = 1, disk_writes = 0, debug = False,
            clock_hand = 0\<rparr>) \<and>
         rand_do (d, a) (rand_init c) = Inl (IndexError, \<lparr>number_frames = c, frames = [],
            page_faults = 1, disk_reads = 1, disk_writes = 0, debug = False\<rparr>)"
  using assms
  by (simp add: lru_do_eq clock_do_eq rand_do_eq lru_init_def clock_init_def rand_init_def
      lru_access_memory_def lru_removing_page_def clock_access_memory_def
      rand_access_memory_def random_choice_def Let_def find_removing_page.simps
      find_removing_page_body_def py_slot_def)

theorem nonpositive_capacity_fails_at_first_access_witness:
  "(-3::int) \<le> 0 \<and>
   lru_do (Write 7) (lru_init (-3)) = Inl (ValueError, \<lparr>number_frames = -3, frames = [],
      page_faults = 1, disk_reads = 1, disk_writes = 0, debug = False,
      recency_tracker = 1\<rparr>) \<and>
   clock_do (Write 7) (clock_init (-3)) = Inl (IndexError, \<lparr>number_frames = -3, frames = [],
      page_faults = 1, disk_reads = 1, disk_writes = 0, debug = False, clock_hand = 0\<rparr>) \<and>
   rand_do (5, Write 7) (rand_init (-3)) = Inl (IndexError, \<lparr>number_frames = -3, frames = [],
      page_faults = 1, disk_reads = 1, disk_writes = 0, debug = False\<rparr>)"
proof -
  have h: "(-3::int) \<le> 0" by simp
  from nonpositive_capacity_fails_at_first_access [OF h, of "Write 7" 5] h
  show ?thesis by blast
qed

text \<open>
  C3 as the specification states it does not hold: with capacity 0 each of the three
  constructors returns an object, and it is the first read that raises.
\<close>

theorem construction_rejected_counterexample:
  "lru_init 0 = \<lparr>number_frames = 0, frames = [], page_faults = 0, disk_reads = 0,
      disk_writes = 0, debug = False, recency_tracker = 0\<rparr> \<and>
   clock_init 0 = \<lparr>number_frames = 0, frames = [], page_faults = 0, disk_reads = 0,
      disk_writes = 0, debug = False, clock_hand = 0\<rparr> \<and>
   rand_init 0 = \<lparr>number_frames = 0, frames = [], page_faults = 0, disk_reads = 0,
      disk_writes = 0, debug = False\<rparr> \<and>
   lru_read_memory 1 (lru_init 0) = Inl (ValueError, \<lparr>number_frames = 0, frames = [],
      page_faults = 1, disk_reads = 1, disk_writes = 0, debug = False,
      recency_tracker = 1\<rparr>) \<and>
   clock_read_memory 1 (clock_init 0) = Inl (IndexError, \<lparr>number_frames = 0, frames = [],
      page_faults = 1, disk_reads = 1, disk_writes = 0, debug = False, clock_hand = 0\<rparr>) \<and>
   rand_read_memory 0 1 (rand_init 0) = Inl (IndexError, \<lparr>number_frames = 0, frames = [],
      page_faults = 1, disk_reads = 1, disk_writes = 0, debug = False\<rparr>)"
  by (simp add: lru_read_memory_def clock_read_memory_def rand_read_memory_def
      lru_init_def clock_init_def rand_init_def
      lru_access_memory_def lru_removing_page_def clock_access_memory_def
      rand_access_memory_def random_choice_def Let_def find_removing_page.simps
      find_removing_page_body_def py_slot_def)

subsection \<open>The resident set stays within the capacity\<close>

text \<open>
  C4. For each of the three policies built with a capacity of at least 1, after every prefix
  of any sequence of accesses the resident set holds at most capacity frames and no page
  number appears in two of them.
\<close>

theorem resident_set_bounded_and_unique:
  assumes "1 \<le> c"
  shows "(\<exists>s. lru_run (lru_init c) (take n as) = Inr s \<and>
            int (length (frames s)) \<le> c \<and> distinct (map fst (frames s)) \<and>
            int (card (lru_pages s)) \<le> c) \<and>
         (\<exists>s. clock_run (clock_init c) (take n as) = Inr s \<and>
            int (length (frames s)) \<le> c \<and> distinct (map page (frames s)) \<and>
            int (card (clock_pages s)) \<le> c) \<and>
         (\<exists>s. rand_run (rand_init c) (take n ras) = Inr s \<and>
            int (length (frames s)) \<le> c \<and> distinct (map fst (frames s)) \<and>
            int (card (rand_pages s)) \<le> c)"
proof -
  from lru_reachable [OF assms, of "take n as"] obtain sl where
    sl: "lru_run (lru_init c) (take n as) = Inr sl" "lru_inv sl" "number_frames sl = c"
    by blast
  from sl(2,3) have l: "int (length (frames sl)) \<le> c" "distinct (map fst (frames sl))"
    by (simp_all add: lru_inv_def)
  from l(2) have "card (lru_pages sl) = length (frames sl)"
    unfolding lru_pages_def by (metis distinct_card length_map)
  with l have lc: "int (card (lru_pages sl)) \<le> c" by simp
  from clock_reachable [OF assms, of "take n as"] obtain sc where
    sc: "clock_run (clock_init c) (take n as) = Inr sc" "clock_inv sc" "number_frames sc = c"
    by blast
  from sc(2,3) have k: "int (length (frames sc)) \<le> c" "distinct (map page (frames sc))"
    by (simp_all add: clock_inv_def)
  from k(2) have "card (clock_pages sc) = length (frames sc)"
    unfolding clock_pages_def by (metis distinct_card length_map)
  with k have kc: "int (card (clock_pages sc)) \<le> c" by simp
  from rand_reachable [OF assms, of "take n ras"] obtain sr where
    sr: "rand_run (rand_init c) (take n ras) = Inr sr" "rand_inv sr" "number_frames sr = c"
    by blast
  from sr(2,3) have r: "int (length (frames sr)) \<le> c" "distinct (map fst (frames sr))"
    by (simp_all add: rand_inv_def)
  from r(2) have "card (rand_pages sr) = length (frames sr)"
    unfolding rand_pages_def by (metis distinct_card length_map)
  with r have rc: "int (card (rand_pages sr)) \<le> c" by simp
  from sl(1) l lc sc(1) k kc sr(1) r rc show ?thesis by blast
qed

theorem resident_set_bounded_and_unique_witness:
  "(1::int) \<le> 2 \<and>
   (\<exists>s. lru_run (lru_init 2) (take 3 [Read 1, Write 2, Read 3, Read 1]) = Inr s \<and>
      int (length (frames s)) \<le> 2 \<and> distinct (map fst (frames s)) \<and>
      int (card (lru_pages s)) \<le> 2) \<and>
   (\<exists>s. clock_run (clock_init 2) (take 3 [Read 1, Write 2, Read 3, Read 1]) = Inr s \<and>
      int (length (frames s)) \<le> 2 \<and> distinct (map page (frames s)) \<and>
      int (card (clock_pages s)) \<le> 2) \<and>
   (\<exists>s. rand_run (rand_init 2) (take 3 [(0, Read 1), (4, Write 2), (1, Read 3), (0, Read 1)])
        = Inr s \<and>
      int (length (frames s)) \<le> 2 \<and> distinct (map fst (frames s)) \<and>
      int (card (rand_pages s)) \<le> 2)"
proof -
  have h: "(1::int) \<le> 2" by simp
  from resident_set_bounded_and_unique [OF h, of 3 "[Read 1, Write 2, Read 3, Read 1]"
      "[(0, Read 1), (4, Write 2), (1, Read 3), (0, Read 1)]"] h
  show ?thesis by blast
qed

subsection \<open>The page just accessed is resident\<close>

text \<open>
  C10. For each of the three policies built with a capacity of at least 1, after any
  sequence of accesses a further \<open>read_memory p\<close> or \<open>write_memory p\<close> returns normally
  and leaves page \<open>p\<close> in the resident set.
\<close>

theorem accessed_page_is_resident:
  assumes "1 \<le> c"
  shows "(\<exists>s s'. lru_run (lru_init c) as = Inr s \<and> lru_do a s = Inr s' \<and>
            lru_run (lru_init c) (as @ [a]) = Inr s' \<and> page_of a \<in> lru_pages s') \<and>
         (\<exists>s s'. clock_run (clock_init c) as = Inr s \<and> clock_do a s = Inr s' \<and>
            clock_run (clock_init c) (as @ [a]) = Inr s' \<and> page_of a \<in> clock_pages s') \<and>
         (\<exists>s s'. rand_run (rand_init c) ras = Inr s \<and> rand_do (d, a) s = Inr s' \<and>
            rand_run (rand_init c) (ras @ [(d, a)]) = Inr s' \<and> page_of a \<in> rand_pages s')"
proof -
  from lru_reachable [OF assms, of as] obtain sl where
    sl: "lru_run (lru_init c) as = Inr sl" "lru_inv sl" "number_frames sl = c" by blast
  from lru_step_inv [OF sl(2), of "page_of a" "is_write_of a"] sl(3) assms
  obtain sl' where sl': "lru_do a sl = Inr sl'" by (auto simp: lru_do_eq)
  then have "page_of a \<in> lru_pages sl'"
    using lru_step_resident [of "page_of a" "is_write_of a" sl sl'] by (simp add: lru_do_eq)
  moreover from sl(1) sl' have "lru_run (lru_init c) (as @ [a]) = Inr sl'"
    by (simp add: lru_run_append)
  ultimately have l: "\<exists>s s'. lru_run (lru_init c) as = Inr s \<and> lru_do a s = Inr s' \<and>
      lru_run (lru_init c) (as @ [a]) = Inr s' \<and> page_of a \<in> lru_pages s'"
    using sl(1) sl' by blast
  from clock_reachable [OF assms, of as] obtain sc where
    sc: "clock_run (clock_init c) as = Inr sc" "clock_inv sc" by blast
  from clock_step_inv [OF sc(2), of "page_of a" "is_write_of a"]
  obtain sc' where sc': "clock_do a sc = Inr sc'" by (auto simp: clock_do_eq)
  then have "page_of a \<in> clock_pages sc'"
    using clock_step_resident [of "page_of a" "is_write_of a" sc sc']
    by (simp add: clock_do_eq)
  moreover from sc(1) sc' have "clock_run (clock_init c) (as @ [a]) = Inr sc'"
    by (simp add: clock_run_append)
  ultimately have k: "\<exists>s s'. clock_run (clock_init c) as = Inr s \<and> clock_do a s = Inr s' \<and>
      clock_run (clock_init c) (as @ [a]) = Inr s' \<and> page_of a \<in> clock_pages s'"
    using sc(1) sc' by blast
  from rand_reachable [OF assms, of ras] obtain sr where
    sr: "rand_run (rand_init c) ras = Inr sr" "rand_inv sr" "number_frames sr = c" by blast
  from rand_step_inv [OF sr(2), of d "page_of a" "is_write_of a"] sr(3) assms
  obtain sr' where sr': "rand_do (d, a) sr = Inr sr'" by (auto simp: rand_do_eq)
  then have "page_of a \<in> rand_pages sr'"
    using rand_step_resident [of d "page_of a" "is_write_of a" sr sr']
    by (simp add: rand_do_eq)
  moreover from sr(1) sr' have "rand_run (rand_init c) (ras @ [(d, a)]) = Inr sr'"
    by (simp add: rand_run_append)
  ultimately have r: "\<exists>s s'. rand_run (rand_init c) ras = Inr s \<and>
      rand_do (d, a) s = Inr s' \<and>
      rand_run (rand_init c) (ras @ [(d, a)]) = Inr s' \<and> page_of a \<in> rand_pages s'"
    using sr(1) sr' by blast
  from l k r show ?thesis by blast
qed

theorem accessed_page_is_resident_witness:
  "(1::int) \<le> 1 \<and>
   (\<exists>s s'. lru_run (lru_init 1) [Write 1, Read 2] = Inr s \<and> lru_do (Read 3) s = Inr s' \<and>
      lru_run (lru_init 1) ([Write 1, Read 2] @ [Read 3]) = Inr s' \<and>
      page_of (Read 3) \<in> lru_pages s') \<and>
   (\<exists>s s'. clock_run (clock_init 1) [Write 1, Read 2] = Inr s \<and> clock_do (Read 3) s = Inr s' \<and>
      clock_run (clock_init 1) ([Write 1, Read 2] @ [Read 3]) = Inr s' \<and>
      page_of (Read 3) \<in> clock_pages s') \<and>
   (\<exists>s s'. rand_run (rand_init 1) [(0, Write 1), (3, Read 2)] = Inr s \<and>
      rand_do (9, Read 3) s = Inr s' \<and>
      rand_run (rand_init 1) ([(0, Write 1), (3, Read 2)] @ [(9, Read 3)]) = Inr s' \<and>
      page_of (Read 3) \<in> rand_pages s')"
proof -
  have h: "(1::int) \<le> 1" by simp
  from accessed_page_is_resident [OF h, of "[Write 1, Read 2]" "Read 3"
      "[(0, Write 1), (3, Read 2)]" 9] h
  show ?thesis by blast
qed

subsection \<open>LRU evicts the least recently used page\<close>

text \<open>
  C5. For the LRU policy built with a capacity of at least 1, on every fault that occurs
  while the resident set is at capacity, the page removed is the one chosen by
  \<open>lru_removing_page\<close>, whose \<open>last_used\<close> stamp is strictly smaller than that of every
  other resident page; \<open>disk_writes\<close> grows by one exactly when that frame is dirty; the
  new page is inserted with \<open>last_used\<close> the current value of the logical clock and
  \<open>dirty\<close> the kind of the access; the other frames are unchanged. With capacity 2 and the
  accesses read 1, read 2, read 1, write 3 there are 3 faults, page 2 is the one removed,
  the resident set is \<open>{1, 3}\<close> at the end and \<open>disk_writes\<close> is 0.
\<close>

theorem lru_evicts_least_recently_used:
  "(1 \<le> c \<and> lru_run (lru_init c) as = Inr s \<and> page_of a \<notin> lru_pages s \<and>
    number_frames s \<le> int (length (frames s)) \<longrightarrow>
     (\<exists>v fv s'. lru_removing_page s = Some v \<and> map_of (frames s) v = Some fv \<and>
        (\<forall>q fq. q \<noteq> v \<longrightarrow> map_of (frames s) q = Some fq \<longrightarrow> last_used fv < last_used fq) \<and>
        lru_do a s = Inr s' \<and>
        lru_pages s' = insert (page_of a) (lru_pages s - {v}) \<and>
        get_total_disk_writes s' = get_total_disk_writes s + (if dirty fv then 1 else 0) \<and>
        recency_tracker s' = recency_tracker s + 1 \<and>
        map_of (frames s') (page_of a) =
          Some \<lparr>dirty = is_write_of a, last_used = recency_tracker s'\<rparr> \<and>
        (\<forall>q. q \<noteq> v \<longrightarrow> q \<noteq> page_of a \<longrightarrow> map_of (frames s') q = map_of (frames s) q))) \<and>
   lru_run (lru_init 2) [Read 1, Read 2, Read 1] =
     Inr \<lparr>number_frames = 2,
          frames = [(1, \<lparr>dirty = False, last_used = 3\<rparr>), (2, \<lparr>dirty = False, last_used = 2\<rparr>)],
          page_faults = 2, disk_reads = 2, disk_writes = 0, debug = False,
          recency_tracker = 3\<rparr> \<and>
   lru_removing_page \<lparr>number_frames = 2,
          frames = [(1, \<lparr>dirty = False, last_used = 3\<rparr>), (2, \<lparr>dirty = False, last_used = 2\<rparr>)],
          page_faults = 2, disk_reads = 2, disk_writes = 0, debug = False,
          recency_tracker = 3\<rparr> = Some 2 \<and>
   lru_run (lru_init 2) [Read 1, Read 2, Read 1, Write 3] =
     Inr \<lparr>number_frames = 2,
          frames = [(1, \<lparr>dirty = False, last_used = 3\<rparr>), (3, \<lparr>dirty = True, last_used = 4\<rparr>)],
          page_faults = 3, disk_reads = 3, disk_writes = 0, debug = False,
          recency_tracker = 4\<rparr> \<and>
   get_total_page_faults (final (lru_run (lru_init 2) [Read 1, Read 2, Read 1, Write 3])) = 3 \<and>
   get_total_disk_writes (final (lru_run (lru_init 2) [Read 1, Read 2, Read 1, Write 3])) = 0 \<and>
   lru_pages (final (lru_run (lru_init 2) [Read 1, Read 2, Read 1, Write 3])) = {1, 3}"
proof -
  have general: "\<exists>v fv s'. lru_removing_page s = Some v \<and> map_of (frames s) v = Some fv \<and>
        (\<forall>q fq. q \<noteq> v \<longrightarrow> map_of (frames s) q = Some fq \<longrightarrow> last_used fv < last_used fq) \<and>
        lru_do a s = Inr s' \<and>
        lru_pages s' = insert (page_of a) (lru_pages s - {v}) \<and>
        get_total_disk_writes s' = get_total_disk_writes s + (if dirty fv then 1 else 0) \<and>
        recency_tracker s' = recency_tracker s + 1 \<and>
        map_of (frames s') (page_of a) =
          Some \<lparr>dirty = is_write_of a, last_used = recency_tracker s'\<rparr> \<and>
        (\<forall>q. q \<noteq> v \<longrightarrow> q \<noteq> page_of a \<longrightarrow> map_of (frames s') q = map_of (frames s) q)"
    if c: "1 \<le> c" and run: "lru_run (lru_init c) as = Inr s"
      and fault: "page_of a \<notin> lru_pages s"
      and full: "number_frames s \<le> int (length (frames s))"
  proof -
    from lru_reachable [OF c, of as] run have inv: "lru_inv s" and nf: "1 \<le> number_frames s"
      using c by auto
    from lru_evict_step [OF inv nf fault full, of "is_write_of a"] show ?thesis
      unfolding lru_do_eq get_total_disk_writes_def .
  qed
  have s4: "final (lru_run (lru_init 2) [Read 1, Read 2, Read 1, Write 3]) =
      \<lparr>number_frames = 2,
       frames = [(1, \<lparr>dirty = False, last_used = 3\<rparr>), (3, \<lparr>dirty = True, last_used = 4\<rparr>)],
       page_faults = 3, disk_reads = 3, disk_writes = 0, debug = False,
       recency_tracker = 4\<rparr>"
    unfolding lru_scenario_4 by (simp add: final_def)
  have vals: "get_total_page_faults
        (final (lru_run (lru_init 2) [Read 1, Read 2, Read 1, Write 3])) = 3"
      "get_total_disk_writes
        (final (lru_run (lru_init 2) [Read 1, Read 2, Read 1, Write 3])) = 0"
      "lru_pages (final (lru_run (lru_init 2) [Read 1, Read 2, Read 1, Write 3])) = {1, 3}"
    unfolding s4
    by (simp_all add: get_total_page_faults_def get_total_disk_writes_def lru_pages_def)
  from general lru_scenario_3 lru_scenario_victim lru_scenario_4 vals show ?thesis
    by blast
qed

theorem lru_evicts_least_recently_used_witness:
  "(1::int) \<le> 2 \<and>
   lru_run (lru_init 2) [Read 1, Read 2, Read 1] =
     Inr \<lparr>number_frames = 2,
          frames = [(1, \<lparr>dirty = False, last_used = 3\<rparr>), (2, \<lparr>dirty = False, last_used = 2\<rparr>)],
          page_faults = 2, disk_reads = 2, disk_writes = 0, debug = False,
          recency_tracker = 3\<rparr> \<and>
   (\<exists>fv s'. map_of [(1::int, \<lparr>dirty = False, last_used = 3::int\<rparr>), (2, \<lparr>dirty = False, last_used = 2\<rparr>)] 2
        = Some fv \<and> last_used fv = 2 \<and>
      lru_do (Write 3) \<lparr>number_frames = 2,
          frames = [(1, \<lparr>dirty = False, last_used = 3\<rparr>), (2, \<lparr>dirty = False, last_used = 2\<rparr>)],
          page_faults = 2, disk_reads = 2, disk_writes = 0, debug = False,
          recency_tracker = 3\<rparr> = Inr s' \<and>
      lru_pages s' = {1, 3} \<and> get_total_disk_writes s' = 0 \<and> recency_tracker s' = 4 \<and>
      map_of (frames s') 3 = Some \<lparr>dirty = True, last_used = 4\<rparr>)"
proof -
  let ?s = "\<lparr>number_frames = 2,
          frames = [(1, \<lparr>dirty = False, last_used = 3\<rparr>), (2, \<lparr>dirty = False, last_used = 2\<rparr>)],
          page_faults = 2, disk_reads = 2, disk_writes = 0, debug = False,
          recency_tracker = 3\<rparr> :: lru_mmu"
  have h: "(1::int) \<le> 2 \<and> lru_run (lru_init 2) [Read 1, Read 2, Read 1] = Inr ?s \<and>
      page_of (Write 3) \<notin> lru_pages ?s \<and> number_frames ?s \<le> int (length (frames ?s))"
    using lru_scenario_3 by (intro conjI) (simp_all add: lru_pages_def del: lru_run.simps)
  from lru_evicts_least_recently_used [of 2 "[Read 1, Read 2, Read 1]" ?s "Write 3"] h
  obtain v fv s' where r: "lru_removing_page ?s = Some v" "map_of (frames ?s) v = Some fv"
      "\<forall>q fq. q \<noteq> v \<longrightarrow> map_of (frames ?s) q = Some fq \<longrightarrow> last_used fv < last_used fq"
      "lru_do (Write 3) ?s = Inr s'"
      "lru_pages s' = insert (page_of (Write 3)) (lru_pages ?s - {v})"
      "get_total_disk_writes s' = get_total_disk_writes ?s + (if dirty fv then 1 else 0)"
      "recency_tracker s' = recency_tracker ?s + 1"
      "map_of (frames s') (page_of (Write 3)) =
          Some \<lparr>dirty = is_write_of (Write 3), last_used = recency_tracker s'\<rparr>"
    by blast
  from r(1) have v: "v = 2" by (simp add: lru_scenario_victim)
  from r(2) v have fv: "fv = \<lparr>dirty = False, last_used = 2\<rparr>" by simp
  have pages: "lru_pages s' = {1, 3}"
    using r(5) v by (auto simp: lru_pages_def)
  have dw: "get_total_disk_writes s' = 0"
    using r(6) fv by (simp add: get_total_disk_writes_def)
  have rt: "recency_tracker s' = 4" using r(7) by simp
  have new: "map_of (frames s') 3 = Some \<lparr>dirty = True, last_used = 4\<rparr>"
    using r(8) rt by simp
  from r(2) v fv have old: "map_of [(1::int, \<lparr>dirty = False, last_used = 3::int\<rparr>),
        (2, \<lparr>dirty = False, last_used = 2\<rparr>)] 2 = Some fv \<and> last_used fv = 2"
    by simp
  from h old r(4) pages dw rt new show ?thesis by blast
qed

subsection \<open>The second-chance sweep of the Clock policy\<close>

text \<open>
  C6. Clock policy, capacity 2, hand at 0, accesses read 1, read 2, read 3. The first two
  accesses fill the two slots and leave the hand at 0. On the third access
  \<open>find_removing_page\<close> inspects the slots 0, 1 and 0 again: it clears the reference bits
  of both slots, the hand wraps back to slot 0, and slot 0 is returned with the hand moved on
  to 1. Page 1 is replaced by page 3, and the resident set is \<open>{2, 3}\<close>.
\<close>

theorem clock_second_chance_scenario:
  "clock_hand (clock_init 2) = 0 \<and>
   clock_run (clock_init 2) [Read 1, Read 2] =
     Inr \<lparr>number_frames = 2,
          frames = [\<lparr>dirty = False, page = 1, reference = 1\<rparr>,
                    \<lparr>dirty = False, page = 2, reference = 1\<rparr>],
          page_faults = 2, disk_reads = 2, disk_writes = 0, debug = False, clock_hand = 0\<rparr> \<and>
   inspected \<lparr>number_frames = 2,
          frames = [\<lparr>dirty = False, page = 1, reference = 1\<rparr>,
                    \<lparr>dirty = False, page = 2, reference = 1\<rparr>],
          page_faults = 3, disk_reads = 3, disk_writes = 0, debug = False, clock_hand = 0\<rparr>
     = [0, 1, 0] \<and>
   find_removing_page \<lparr>number_frames = 2,
          frames = [\<lparr>dirty = False, page = 1, reference = 1\<rparr>,
                    \<lparr>dirty = False, page = 2, reference = 1\<rparr>],
          page_faults = 3, disk_reads = 3, disk_writes = 0, debug = False, clock_hand = 0\<rparr>
     = Inr (0, \<lparr>number_frames = 2,
          frames = [\<lparr>dirty = False, page = 1, reference = 0\<rparr>,
                    \<lparr>dirty = False, page = 2, reference = 0\<rparr>],
          page_faults = 3, disk_reads = 3, disk_writes = 0, debug = False, clock_hand = 1\<rparr>) \<and>
   clock_run (clock_init 2) [Read 1, Read 2, Read 3] =
     Inr \<lparr>number_frames = 2,
          frames = [\<lparr>dirty = False, page = 3, reference = 1\<rparr>,
                    \<lparr>dirty = False, page = 2, reference = 0\<rparr>],
          page_faults = 3, disk_reads = 3, disk_writes = 0, debug = False, clock_hand = 1\<rparr> \<and>
   clock_pages (final (clock_run (clock_init 2) [Read 1, Read 2, Read 3])) = {2, 3}"
  by (simp add: clock_init_def clock_read_memory_def clock_access_memory_def new_frame_def
      Let_def find_removing_page.simps inspected.simps find_removing_page_body_def
      py_slot_def clock_pages_def final_def insert_commute)

lemma body_Returned:
  "find_removing_page_body s = Returned i s' \<Longrightarrow> i = clock_hand s"
  by (auto simp: find_removing_page_body_def Let_def split: option.splits if_splits)

lemma inspected_nonempty: "inspected s \<noteq> []"
  by (subst inspected.simps) simp

lemma sweep_states_nonempty: "sweep_states s \<noteq> []"
  by (subst sweep_states.simps) simp

lemma sweep_full:
  assumes "clock_inv s" "number_frames s = int (length (frames s))"
  shows "\<exists>i s2. find_removing_page s = Inr (i, s2) \<and>
     inspected s = map clock_hand (sweep_states s) \<and>
     clock_hand (last (sweep_states s)) = i \<and>
     reference (frames (last (sweep_states s)) ! nat i) = 0 \<and>
     find_removing_page_body (last (sweep_states s)) = Returned i s2 \<and>
     frames s2 = frames (last (sweep_states s)) \<and>
     (\<forall>u\<in>set (butlast (sweep_states s)). reference (frames u ! nat (clock_hand u)) \<noteq> 0) \<and>
     (\<forall>k\<in>set (butlast (inspected s)). reference (frames s ! nat k) \<noteq> 0) \<and>
     (\<forall>k<length (frames s). frames s2 ! k =
        (if int k \<in> set (butlast (inspected s)) then (frames s ! k)\<lparr>reference := 0\<rparr>
         else frames s ! k)) \<and>
     (\<forall>m<length (inspected s).
        inspected s ! m = (clock_hand s + int m) mod number_frames s)"
  using assms
proof (induction s rule: find_removing_page.induct)
  case (1 self)
  let ?h = "clock_hand self"
  let ?j = "nat ?h"
  note body = body_full [OF "1.prems"]
  from "1.prems" have h: "0 \<le> ?h" "?h < number_frames self" and j: "?j < length (frames self)"
    by (auto simp: clock_inv_def)
  show ?case
  proof (cases "reference (frames self ! ?j) = 0")
    case True
    let ?s2 = "self\<lparr>clock_hand := (?h + 1) mod number_frames self\<rparr>"
    from True body have ret: "find_removing_page_body self = Returned ?h ?s2" by simp
    then have f: "find_removing_page self = Inr (?h, ?s2)"
      and ins: "inspected self = [?h]" and sw: "sweep_states self = [self]"
      by (simp_all add: find_removing_page.simps [of self] inspected.simps [of self]
          sweep_states.simps [of self])
    from h have "?h mod number_frames self = ?h" by simp
    with f ins sw True ret show ?thesis by simp
  next
    case False
    let ?s1 = "self\<lparr>frames := (frames self)[?j := (frames self ! ?j)\<lparr>reference := 0\<rparr>],
                   clock_hand := (?h + 1) mod number_frames self\<rparr>"
    from False body have again: "find_removing_page_body self = Again ?s1" by simp
    have "map page (frames ?s1) = map page (frames self)"
      using j by (simp add: map_update_same)
    with "1.prems" have inv1: "clock_inv ?s1" "number_frames ?s1 = int (length (frames ?s1))"
      by (simp_all add: clock_inv_def hand_step_range)
    from "1.IH" [OF again inv1] obtain i s2 where
      f1: "find_removing_page ?s1 = Inr (i, s2)"
      and m1: "inspected ?s1 = map clock_hand (sweep_states ?s1)"
      and l1: "clock_hand (last (sweep_states ?s1)) = i"
      and r1: "reference (frames (last (sweep_states ?s1)) ! nat i) = 0"
      and b1: "find_removing_page_body (last (sweep_states ?s1)) = Returned i s2"
      and e1: "frames s2 = frames (last (sweep_states ?s1))"
      and u1: "\<forall>u\<in>set (butlast (sweep_states ?s1)). reference (frames u ! nat (clock_hand u)) \<noteq> 0"
      and k1: "\<forall>k\<in>set (butlast (inspected ?s1)). reference (frames ?s1 ! nat k) \<noteq> 0"
      and c1: "\<forall>k<length (frames ?s1). frames s2 ! k =
        (if int k \<in> set (butlast (inspected ?s1)) then (frames ?s1 ! k)\<lparr>reference := 0\<rparr>
         else frames ?s1 ! k)"
      and n1: "\<forall>m<length (inspected ?s1).
        inspected ?s1 ! m = (clock_hand ?s1 + int m) mod number_frames ?s1"
      by blast
    from again have f: "find_removing_page self = Inr (i, s2)"
      and ins: "inspected self = ?h # inspected ?s1"
      and sw: "sweep_states self = self # sweep_states ?s1"
      using f1
      by (simp_all add: find_removing_page.simps [of self] inspected.simps [of self]
          sweep_states.simps [of self])
    have bl: "butlast (inspected self) = ?h # butlast (inspected ?s1)"
      "butlast (sweep_states self) = self # butlast (sweep_states ?s1)"
      "last (sweep_states self) = last (sweep_states ?s1)"
      using ins sw inspected_nonempty [of ?s1] sweep_states_nonempty [of ?s1] by simp_all
    have map: "inspected self = map clock_hand (sweep_states self)"
      using ins sw m1 by simp
    have u: "\<forall>u\<in>set (butlast (sweep_states self)). reference (frames u ! nat (clock_hand u)) \<noteq> 0"
      using u1 False unfolding bl by simp
    have k: "\<forall>k\<in>set (butlast (inspected self)). reference (frames self ! nat k) \<noteq> 0"
    proof
      fix k assume "k \<in> set (butlast (inspected self))"
      then consider "k = ?h" | "k \<in> set (butlast (inspected ?s1))" unfolding bl by auto
      then show "reference (frames self ! nat k) \<noteq> 0"
      proof cases
        case 1
        with False show ?thesis by simp
      next
        case 2
        with k1 have nz: "reference (frames ?s1 ! nat k) \<noteq> 0" by blast
        show ?thesis
        proof (cases "nat k = ?j")
          case True
          with nz j show ?thesis by simp
        next
          case False
          with nz show ?thesis by simp
        qed
      qed
    qed
    have c: "\<forall>k<length (frames self). frames s2 ! k =
        (if int k \<in> set (butlast (inspected self)) then (frames self ! k)\<lparr>reference := 0\<rparr>
         else frames self ! k)"
    proof (intro allI impI)
      fix k assume kl: "k < length (frames self)"
      with c1 have ck: "frames s2 ! k =
        (if int k \<in> set (butlast (inspected ?s1)) then (frames ?s1 ! k)\<lparr>reference := 0\<rparr>
         else frames ?s1 ! k)" by simp
      show "frames s2 ! k =
        (if int k \<in> set (butlast (inspected self)) then (frames self ! k)\<lparr>reference := 0\<rparr>
         else frames self ! k)"
      proof (cases "k = ?j")
        case True
        with h have "int k = ?h" by simp
        with ck True kl show ?thesis unfolding bl by simp
      next
        case False
        with h have "int k \<noteq> ?h" by auto
        with ck False show ?thesis unfolding bl by simp
      qed
    qed
    have n: "\<forall>m<length (inspected self).
        inspected self ! m = (?h + int m) mod number_frames self"
    proof (intro allI impI)
      fix m assume ml: "m < length (inspected self)"
      show "inspected self ! m = (?h + int m) mod number_frames self"
      proof (cases m)
        case 0
        with h show ?thesis by (simp add: ins)
      next
        case (Suc m')
        with ml have "m' < length (inspected ?s1)" by (simp add: ins)
        with n1 have "inspected ?s1 ! m' =
            ((?h + 1) mod number_frames self + int m') mod number_frames self"
          by simp
        also have "\<dots> = (?h + 1 + int m') mod number_frames self"
          by (simp add: mod_add_left_eq)
        also have "?h + 1 + int m' = ?h + int m" using Suc by simp
        finally show ?thesis using Suc by (simp add: ins)
      qed
    qed
    from f map l1 r1 b1 e1 u k c n show ?thesis unfolding bl by blast
  qed
qed

lemma find_last_inspected:
  "find_removing_page s = Inr (i, s') \<Longrightarrow> last (inspected s) = i"
proof (induction s rule: find_removing_page.induct)
  case (1 self)
  show ?case
  proof (cases "find_removing_page_body self")
    case (Raised e1 s1)
    with "1.prems" show ?thesis by (simp add: find_removing_page.simps [of self])
  next
    case (Returned i1 s1)
    with "1.prems" body_Returned [OF Returned] show ?thesis
      by (simp add: find_removing_page.simps [of self] inspected.simps [of self])
  next
    case (Again s1)
    with "1.prems" have "find_removing_page s1 = Inr (i, s')"
      by (simp add: find_removing_page.simps [of self])
    with "1.IH" [OF Again] Again inspected_nonempty [of s1] show ?thesis
      by (simp add: inspected.simps [of self])
  qed
qed

lemma sweep_wrap:
  assumes inv: "clock_inv s" and full: "number_frames s = int (length (frames s))"
    and f: "find_removing_page s = Inr (i, s2)"
    and again: "i \<in> set (butlast (inspected s))"
  shows "i = clock_hand s \<and> length (inspected s) = length (frames s) + 1 \<and>
     (\<forall>f\<in>set (frames s). reference f \<noteq> 0)"
proof -
  let ?n = "number_frames s"
  let ?h = "clock_hand s"
  let ?L = "length (inspected s)"
  from sweep_full [OF inv full] f have
    nth: "\<forall>m<?L. inspected s ! m = (?h + int m) mod ?n"
    and set: "\<forall>k\<in>set (butlast (inspected s)). reference (frames s ! nat k) \<noteq> 0"
    by auto
  from inv have h: "0 \<le> ?h" "?h < ?n" by (simp_all add: clock_inv_def)
  have ne: "inspected s \<noteq> []" by (rule inspected_nonempty)
  then have Lpos: "0 < ?L" by simp
  have "?L \<le> referenced s + 1" by (rule inspected_bound)
  with referenced_le [of s] have Lb: "?L \<le> length (frames s) + 1" by simp
  from f have "last (inspected s) = i" by (rule find_last_inspected)
  with ne have il: "i = inspected s ! (?L - 1)" by (simp add: last_conv_nth)
  from again obtain m where m: "m < ?L - 1" "butlast (inspected s) ! m = i"
    by (auto simp: in_set_conv_nth)
  then have im: "inspected s ! m = i" by (simp add: nth_butlast)
  from m(1) nth im have "(?h + int m) mod ?n = i" by simp
  moreover from Lpos nth il have "(?h + int (?L - 1)) mod ?n = i" by simp
  ultimately have "(?h + int (?L - 1)) mod ?n = (?h + int m) mod ?n" by simp
  then have "?n dvd (?h + int (?L - 1)) - (?h + int m)" by (simp add: mod_eq_dvd_iff)
  then have dv: "?n dvd int (?L - 1) - int m" by simp
  from m(1) have pos: "0 < int (?L - 1) - int m" by simp
  from dv pos have "?n \<le> int (?L - 1) - int m" by (rule zdvd_imp_le)
  with Lb full m(1) have m0: "m = 0" and L: "?L = length (frames s) + 1" by simp_all
  from m0 im nth Lpos h have ih: "i = ?h" by simp
  have all: "reference g \<noteq> 0" if "g \<in> set (frames s)" for g
  proof -
    from that obtain k where k: "k < length (frames s)" "g = frames s ! k"
      by (auto simp: in_set_conv_nth)
    let ?m = "nat ((int k - ?h) mod ?n)"
    from h have npos: "0 < ?n" by simp
    then have mr: "0 \<le> (int k - ?h) mod ?n" "(int k - ?h) mod ?n < ?n" by simp_all
    with full L have ml: "?m < ?L - 1" by simp
    then have "inspected s ! ?m = (?h + int ?m) mod ?n" using nth by simp
    also have "\<dots> = (?h + (int k - ?h) mod ?n) mod ?n" using mr by simp
    also have "\<dots> = (?h + (int k - ?h)) mod ?n" by (simp add: mod_add_right_eq)
    also have "\<dots> = int k" using k(1) full by simp
    finally have "inspected s ! ?m = int k" .
    with ml have "int k \<in> set (butlast (inspected s))"
      by (metis length_butlast nth_butlast nth_mem)
    with set have "reference (frames s ! nat (int k)) \<noteq> 0" by blast
    with k(2) show ?thesis by simp
  qed
  from ih L all show ?thesis by blast
qed

lemma clock_evict_pages:
  assumes inv: "clock_inv s" and nres: "p \<notin> clock_pages s"
    and i: "nat i < length (frames s)"
    and pages: "map page (frames s2) = map page (frames s)"
  shows "clock_pages (s2\<lparr>disk_writes := dw, frames := (frames s2)[nat i := new_frame p w]\<rparr>) =
     insert p (clock_pages s - {page (frames s ! nat i)})"
proof -
  let ?s' = "s2\<lparr>disk_writes := dw, frames := (frames s2)[nat i := new_frame p w]\<rparr>"
  from inv have dist: "distinct (map page (frames s))" by (simp add: clock_inv_def)
  have "map page (frames ?s') = (map page (frames s))[nat i := p]"
    by (simp add: map_update pages new_frame_def)
  then have "clock_pages ?s' = set ((map page (frames s))[nat i := p])"
    by (simp add: clock_pages_def del: set_map)
  also have "\<dots> = insert p (set (map page (frames s)) - {map page (frames s) ! nat i})"
    using dist i by (intro set_update_distinct) simp_all
  finally show ?thesis using i by (simp add: clock_pages_def)
qed

subsection \<open>The search for the frame to remove ends\<close>

text \<open>
  C7. Clock policy built with a capacity \<open>c\<close> of at least 1. Whenever an access faults with
  all slots occupied, \<open>find_removing_page\<close> returns after inspecting at most \<open>c + 1\<close>
  slots, hence at most \<open>2 * c\<close>, going round the array from the hand. The index returned
  is the slot under the hand in the last round, it lies in the array, and the reference bit
  of that slot was 0 in the object of that round, that is when it was inspected; in every
  earlier round the bit of the slot under the hand was set and is cleared. In terms of the
  object before the search: every slot passed over had its bit set, and the slot returned
  either had its bit clear and is inspected once, or had its bit set, and then every slot
  had, the search has cleared them all and has come back to the slot it started at. The
  access replaces the page of the slot returned by the new page. With capacity 1 the single
  slot is the one replaced.
\<close>

theorem clock_search_terminates_bounded:
  assumes "1 \<le> c" and "clock_run (clock_init c) as = Inr s"
    and "page_of a \<notin> clock_pages s"
    and "number_frames s \<le> int (length (frames s))"
  shows "\<exists>i s2 s' t.
     find_removing_page (s\<lparr>page_faults := page_faults s + 1,
        disk_reads := disk_reads s + 1\<rparr>) = Inr (i, s2) \<and>
     length (inspected (s\<lparr>page_faults := page_faults s + 1,
        disk_reads := disk_reads s + 1\<rparr>)) \<le> nat c + 1 \<and>
     length (inspected (s\<lparr>page_faults := page_faults s + 1,
        disk_reads := disk_reads s + 1\<rparr>)) \<le> 2 * nat c \<and>
     last (inspected (s\<lparr>page_faults := page_faults s + 1,
        disk_reads := disk_reads s + 1\<rparr>)) = i \<and>
     0 \<le> i \<and> i < c \<and> reference (frames s2 ! nat i) = 0 \<and>
     inspected (s\<lparr>page_faults := page_faults s + 1, disk_reads := disk_reads s + 1\<rparr>) =
       map clock_hand (sweep_states (s\<lparr>page_faults := page_faults s + 1,
         disk_reads := disk_reads s + 1\<rparr>)) \<and>
     last (sweep_states (s\<lparr>page_faults := page_faults s + 1,
        disk_reads := disk_reads s + 1\<rparr>)) = t \<and>
     clock_hand t = i \<and> reference (frames t ! nat i) = 0 \<and>
     find_removing_page_body t = Returned i s2 \<and> frames s2 = frames t \<and>
     (\<forall>u\<in>set (butlast (sweep_states (s\<lparr>page_faults := page_faults s + 1,
        disk_reads := disk_reads s + 1\<rparr>))). reference (frames u ! nat (clock_hand u)) \<noteq> 0) \<and>
     (\<forall>k\<in>set (butlast (inspected (s\<lparr>page_faults := page_faults s + 1,
        disk_reads := disk_reads s + 1\<rparr>))). reference (frames s ! nat k) \<noteq> 0) \<and>
     (\<forall>m<length (inspected (s\<lparr>page_faults := page_faults s + 1,
        disk_reads := disk_reads s + 1\<rparr>)).
        inspected (s\<lparr>page_faults := page_faults s + 1, disk_reads := disk_reads s + 1\<rparr>) ! m =
          (clock_hand s + int m) mod c) \<and>
     (\<forall>k<length (frames s). frames s2 ! k =
        (if int k \<in> set (butlast (inspected (s\<lparr>page_faults := page_faults s + 1,
              disk_reads := disk_reads s + 1\<rparr>)))
         then (frames s ! k)\<lparr>reference := 0\<rparr> else frames s ! k)) \<and>
     (reference (frames s ! nat i) = 0 \<and>
        i \<notin> set (butlast (inspected (s\<lparr>page_faults := page_faults s + 1,
              disk_reads := disk_reads s + 1\<rparr>))) \<or>
      reference (frames s ! nat i) \<noteq> 0 \<and> i = clock_hand s \<and>
        length (inspected (s\<lparr>page_faults := page_faults s + 1,
              disk_reads := disk_reads s + 1\<rparr>)) = nat c + 1 \<and>
        (\<forall>f\<in>set (frames s). reference f \<noteq> 0)) \<and>
     clock_hand s2 = (i + 1) mod c \<and>
     clock_do a s = Inr s' \<and>
     clock_pages s' = insert (page_of a) (clock_pages s - {page (frames s ! nat i)}) \<and>
     (c = 1 \<longrightarrow> i = 0 \<and> clock_pages s' = {page_of a})"
proof -
  let ?s1 = "s\<lparr>page_faults := page_faults s + 1, disk_reads := disk_reads s + 1\<rparr>"
  from clock_reachable [OF assms(1), of as] assms(2)
  have inv: "clock_inv s" and nf: "number_frames s = c" by auto
  from inv assms(4) have eq1: "number_frames ?s1 = int (length (frames ?s1))"
    by (simp add: clock_inv_def)
  from inv have inv1: "clock_inv ?s1" by (simp add: clock_inv_def)
  have fr: "frames ?s1 = frames s" "clock_hand ?s1 = clock_hand s" "number_frames ?s1 = c"
    using nf by simp_all
  from clock_evict_full [OF inv assms(3,4), of "is_write_of a"] obtain i s2 where
    f: "find_removing_page ?s1 = Inr (i, s2)"
    and i: "0 \<le> i" "i < number_frames s" "nat i < length (frames s)"
    and r: "reference (frames s2 ! nat i) = 0"
    and hd: "clock_hand s2 = (i + 1) mod number_frames s"
    and same: "same_slots ?s1 s2"
    and acc: "clock_access_memory (page_of a) (is_write_of a) s =
        Inr (s2\<lparr>disk_writes := disk_writes s + (if dirty (frames s2 ! nat i) then 1 else 0),
               frames := (frames s2)[nat i := new_frame (page_of a) (is_write_of a)]\<rparr>)"
    by blast
  let ?s' = "s2\<lparr>disk_writes := disk_writes s + (if dirty (frames s2 ! nat i) then 1 else 0),
               frames := (frames s2)[nat i := new_frame (page_of a) (is_write_of a)]\<rparr>"
  let ?t = "last (sweep_states ?s1)"
  from sweep_full [OF inv1 eq1] f have
    sm: "inspected ?s1 = map clock_hand (sweep_states ?s1)"
    and th: "clock_hand ?t = i"
    and tr: "reference (frames ?t ! nat i) = 0"
    and tb: "find_removing_page_body ?t = Returned i s2"
    and te: "frames s2 = frames ?t"
    and su: "\<forall>u\<in>set (butlast (sweep_states ?s1)). reference (frames u ! nat (clock_hand u)) \<noteq> 0"
    and sk: "\<forall>k\<in>set (butlast (inspected ?s1)). reference (frames ?s1 ! nat k) \<noteq> 0"
    and sc: "\<forall>k<length (frames ?s1). frames s2 ! k =
        (if int k \<in> set (butlast (inspected ?s1)) then (frames ?s1 ! k)\<lparr>reference := 0\<rparr>
         else frames ?s1 ! k)"
    and sn: "\<forall>m<length (inspected ?s1).
        inspected ?s1 ! m = (clock_hand ?s1 + int m) mod number_frames ?s1"
    by auto
  note sk = sk [unfolded fr] and sc = sc [unfolded fr] and sn = sn [unfolded fr]
  from inv nf have len: "int (length (frames s)) \<le> c" by (simp add: clock_inv_def)
  with assms(4) nf have leq: "length (frames s) = nat c" by simp
  have "length (inspected ?s1) \<le> referenced ?s1 + 1" by (rule inspected_bound)
  also have "\<dots> \<le> length (frames s) + 1" using referenced_le [of ?s1] by simp
  also have "\<dots> \<le> nat c + 1" using len by simp
  finally have b1: "length (inspected ?s1) \<le> nat c + 1" .
  with assms(1) have b2: "length (inspected ?s1) \<le> 2 * nat c" by simp
  from f have l: "last (inspected ?s1) = i" by (rule find_last_inspected)
  have dich: "reference (frames s ! nat i) = 0 \<and> i \<notin> set (butlast (inspected ?s1)) \<or>
      reference (frames s ! nat i) \<noteq> 0 \<and> i = clock_hand s \<and>
        length (inspected ?s1) = nat c + 1 \<and> (\<forall>f\<in>set (frames s). reference f \<noteq> 0)"
  proof (cases "i \<in> set (butlast (inspected ?s1))")
    case True
    from sweep_wrap [OF inv1 eq1 f True] have
      w: "i = clock_hand s" "length (inspected ?s1) = length (frames s) + 1"
        "\<forall>f\<in>set (frames s). reference f \<noteq> 0"
      by simp_all
    from i(3) have "frames s ! nat i \<in> set (frames s)" by simp
    with w(3) have "reference (frames s ! nat i) \<noteq> 0" by blast
    with w leq show ?thesis by simp
  next
    case False
    with sc i(1,3) have "frames s2 ! nat i = frames s ! nat i" by simp
    with r False show ?thesis by simp
  qed
  from same have pages: "map page (frames s2) = map page (frames s)"
    by (simp add: same_slots_def)
  have pg: "clock_pages ?s' = insert (page_of a) (clock_pages s - {page (frames s ! nat i)})"
    using inv assms(3) i(3) pages by (rule clock_evict_pages)
  have one: "i = 0 \<and> clock_pages ?s' = {page_of a}" if "c = 1"
  proof -
    from that i nf have i0: "i = 0" by simp
    from that len i(3) have "length (frames s) = 1" by simp
    then obtain f0 where "frames s = [f0]" by (cases "frames s") simp_all
    with i0 pg show ?thesis by (simp add: clock_pages_def)
  qed
  from i(1,2) hd nf have ir: "0 \<le> i" "i < c" "clock_hand s2 = (i + 1) mod c" by simp_all
  have acc': "clock_do a s = Inr ?s'" using acc by (simp add: clock_do_eq)
  show ?thesis
    apply (rule exI [of _ i], rule exI [of _ s2], rule exI [of _ ?s'], rule exI [of _ ?t])
    using f b1 b2 l ir r sm th tr tb te su sk sn sc dich acc' pg one
    apply (intro conjI)
                        apply (assumption | rule refl | blast)+
    done
qed

theorem clock_search_terminates_bounded_witness:
  "(1::int) \<le> 3 \<and>
   clock_run (clock_init 3) [Read 1, Read 2, Read 3, Read 4, Read 2] =
     Inr \<lparr>number_frames = 3,
          frames = [\<lparr>dirty = False, page = 4, reference = 1\<rparr>,
                    \<lparr>dirty = False, page = 2, reference = 1\<rparr>,
                    \<lparr>dirty = False, page = 3, reference = 0\<rparr>],
          page_faults = 4, disk_reads = 4, disk_writes = 0, debug = False, clock_hand = 1\<rparr> \<and>
   (\<exists>i s2 s' t.
     find_removing_page \<lparr>number_frames = 3,
          frames = [\<lparr>dirty = False, page = 4, reference = 1\<rparr>,
                    \<lparr>dirty = False, page = 2, reference = 1\<rparr>,
                    \<lparr>dirty = False, page = 3, reference = 0\<rparr>],
          page_faults = 5, disk_reads = 5, disk_writes = 0, debug = False, clock_hand = 1\<rparr>
        = Inr (i, s2) \<and> i = 2 \<and>
     inspected \<lparr>number_frames = 3,
          frames = [\<lparr>dirty = False, page = 4, reference = 1\<rparr>,
                    \<lparr>dirty = False, page = 2, reference = 1\<rparr>,
                    \<lparr>dirty = False, page = 3, reference = 0\<rparr>],
          page_faults = 5, disk_reads = 5, disk_writes = 0, debug = False, clock_hand = 1\<rparr>
        = [1, 2] \<and>
     last (sweep_states \<lparr>number_frames = 3,
          frames = [\<lparr>dirty = False, page = 4, reference = 1\<rparr>,
                    \<lparr>dirty = False, page = 2, reference = 1\<rparr>,
                    \<lparr>dirty = False, page = 3, reference = 0\<rparr>],
          page_faults = 5, disk_reads = 5, disk_writes = 0, debug = False, clock_hand = 1\<rparr>)
        = t \<and>
     clock_hand t = 2 \<and> reference (frames t ! 2) = 0 \<and>
     frames s2 = [\<lparr>dirty = False, page = 4, reference = 1\<rparr>,
                  \<lparr>dirty = False, page = 2, reference = 0\<rparr>,
                  \<lparr>dirty = False, page = 3, reference = 0\<rparr>] \<and>
     clock_hand s2 = 0 \<and>
     clock_do (Read 5) \<lparr>number_frames = 3,
          frames = [\<lparr>dirty = False, page = 4, reference = 1\<rparr>,
                    \<lparr>dirty = False, page = 2, reference = 1\<rparr>,
                    \<lparr>dirty = False, page = 3, reference = 0\<rparr>],
          page_faults = 4, disk_reads = 4, disk_writes = 0, debug = False, clock_hand = 1\<rparr>
        = Inr s' \<and>
     clock_pages s' = {2, 4, 5}) \<and>
   (1::int) \<le> 1 \<and>
   clock_run (clock_init 1) [Write 1] =
     Inr \<lparr>number_frames = 1, frames = [\<lparr>dirty = True, page = 1, reference = 1\<rparr>],
          page_faults = 1, disk_reads = 1, disk_writes = 0, debug = False, clock_hand = 0\<rparr> \<and>
   (\<exists>i s2 s' t.
     find_removing_page \<lparr>number_frames = 1,
          frames = [\<lparr>dirty = True, page = 1, reference = 1\<rparr>],
          page_faults = 2, disk_reads = 2, disk_writes = 0, debug = False, clock_hand = 0\<rparr>
        = Inr (i, s2) \<and> i = 0 \<and>
     inspected \<lparr>number_frames = 1,
          frames = [\<lparr>dirty = True, page = 1, reference = 1\<rparr>],
          page_faults = 2, disk_reads = 2, disk_writes = 0, debug = False, clock_hand = 0\<rparr>
        = [0, 0] \<and>
     last (sweep_states \<lparr>number_frames = 1,
          frames = [\<lparr>dirty = True, page = 1, reference = 1\<rparr>],
          page_faults = 2, disk_reads = 2, disk_writes = 0, debug = False, clock_hand = 0\<rparr>)
        = t \<and>
     clock_hand t = 0 \<and> reference (frames t ! 0) = 0 \<and>
     frames s2 = [\<lparr>dirty = True, page = 1, reference = 0\<rparr>] \<and>
     clock_do (Read 2) \<lparr>number_frames = 1,
          frames = [\<lparr>dirty = True, page = 1, reference = 1\<rparr>],
          page_faults = 1, disk_reads = 1, disk_writes = 0, debug = False, clock_hand = 0\<rparr>
        = Inr s' \<and>
     clock_pages s' = {2})"
proof -
  let ?S = "\<lparr>number_frames = 3,
          frames = [\<lparr>dirty = False, page = 4, reference = 1\<rparr>,
                    \<lparr>dirty = False, page = 2, reference = 1\<rparr>,
                    \<lparr>dirty = False, page = 3, reference = 0\<rparr>],
          page_faults = 4, disk_reads = 4, disk_writes = 0, debug = False, clock_hand = 1\<rparr>
          :: clock_mmu"
  let ?S1 = "?S\<lparr>page_faults := page_faults ?S + 1, disk_reads := disk_reads ?S + 1\<rparr>"
  let ?T = "\<lparr>number_frames = 1, frames = [\<lparr>dirty = True, page = 1, reference = 1\<rparr>],
          page_faults = 1, disk_reads = 1, disk_writes = 0, debug = False, clock_hand = 0\<rparr>
          :: clock_mmu"
  let ?T1 = "?T\<lparr>page_faults := page_faults ?T + 1, disk_reads := disk_reads ?T + 1\<rparr>"
  have a1: "(1::int) \<le> 3" by simp
  have a2: "clock_run (clock_init 3) [Read 1, Read 2, Read 3, Read 4, Read 2] = Inr ?S"
    by (simp add: clock_init_def clock_read_memory_def clock_access_memory_def new_frame_def
        Let_def find_removing_page.simps find_removing_page_body_def py_slot_def)
  have a3: "page_of (Read 5) \<notin> clock_pages ?S" by (simp add: clock_pages_def)
  have a4: "number_frames ?S \<le> int (length (frames ?S))" by simp
  from clock_search_terminates_bounded [OF a1 a2 a3 a4] obtain i s2 s' t where
    r: "find_removing_page ?S1 = Inr (i, s2)" "last (sweep_states ?S1) = t"
      "clock_hand t = i" "reference (frames t ! nat i) = 0" "clock_hand s2 = (i + 1) mod 3"
      "clock_do (Read 5) ?S = Inr s'"
      "clock_pages s' = insert (page_of (Read 5)) (clock_pages ?S - {page (frames ?S ! nat i)})"
    by blast
  have eqS: "?S1 = \<lparr>number_frames = 3,
          frames = [\<lparr>dirty = False, page = 4, reference = 1\<rparr>,
                    \<lparr>dirty = False, page = 2, reference = 1\<rparr>,
                    \<lparr>dirty = False, page = 3, reference = 0\<rparr>],
          page_faults = 5, disk_reads = 5, disk_writes = 0, debug = False, clock_hand = 1\<rparr>"
    by simp
  have ev: "find_removing_page ?S1 = Inr (2, \<lparr>number_frames = 3,
          frames = [\<lparr>dirty = False, page = 4, reference = 1\<rparr>,
                    \<lparr>dirty = False, page = 2, reference = 0\<rparr>,
                    \<lparr>dirty = False, page = 3, reference = 0\<rparr>],
          page_faults = 5, disk_reads = 5, disk_writes = 0, debug = False, clock_hand = 0\<rparr>)"
    "inspected ?S1 = [1, 2]"
    by (simp_all add: find_removing_page.simps inspected.simps find_removing_page_body_def
        py_slot_def Let_def)
  from r(1) ev(1) have i2: "i = 2"
    and fs2: "frames s2 = [\<lparr>dirty = False, page = 4, reference = 1\<rparr>,
                  \<lparr>dirty = False, page = 2, reference = 0\<rparr>,
                  \<lparr>dirty = False, page = 3, reference = 0\<rparr>]"
    by auto
  from r(3,4,5) i2 have rt: "clock_hand t = 2" "reference (frames t ! 2) = 0"
    "clock_hand s2 = 0"
    by (simp_all add: eval_nat_numeral)
  from r(7) i2 have pg: "clock_pages s' = {2, 4, 5}"
    by (auto simp: clock_pages_def eval_nat_numeral)
  have partS: "\<exists>i s2 s' t. find_removing_page ?S1 = Inr (i, s2) \<and> i = 2 \<and>
      inspected ?S1 = [1, 2] \<and> last (sweep_states ?S1) = t \<and>
      clock_hand t = 2 \<and> reference (frames t ! 2) = 0 \<and>
      frames s2 = [\<lparr>dirty = False, page = 4, reference = 1\<rparr>,
                  \<lparr>dirty = False, page = 2, reference = 0\<rparr>,
                  \<lparr>dirty = False, page = 3, reference = 0\<rparr>] \<and>
      clock_hand s2 = 0 \<and> clock_do (Read 5) ?S = Inr s' \<and> clock_pages s' = {2, 4, 5}"
    using r(1,2,6) i2 ev(2) rt fs2 pg by blast
  have b1: "(1::int) \<le> 1" by simp
  have b2: "clock_run (clock_init 1) [Write 1] = Inr ?T"
    by (simp add: clock_init_def clock_write_memory_def clock_access_memory_def new_frame_def
        Let_def)
  have b3: "page_of (Read 2) \<notin> clock_pages ?T" by (simp add: clock_pages_def)
  have b4: "number_frames ?T \<le> int (length (frames ?T))" by simp
  from clock_search_terminates_bounded [OF b1 b2 b3 b4] obtain j u2 u' v where
    q: "find_removing_page ?T1 = Inr (j, u2)" "last (sweep_states ?T1) = v"
      "clock_hand v = j" "reference (frames v ! nat j) = 0"
      "clock_do (Read 2) ?T = Inr u'"
      "(1::int) = 1 \<longrightarrow> j = 0 \<and> clock_pages u' = {page_of (Read 2)}"
    by blast
  have eqT: "?T1 = \<lparr>number_frames = 1,
          frames = [\<lparr>dirty = True, page = 1, reference = 1\<rparr>],
          page_faults = 2, disk_reads = 2, disk_writes = 0, debug = False, clock_hand = 0\<rparr>"
    by simp
  have ew: "find_removing_page ?T1 = Inr (0, \<lparr>number_frames = 1,
          frames = [\<lparr>dirty = True, page = 1, reference = 0\<rparr>],
          page_faults = 2, disk_reads = 2, disk_writes = 0, debug = False, clock_hand = 0\<rparr>)"
    "inspected ?T1 = [0, 0]"
    by (simp_all add: find_removing_page.simps inspected.simps find_removing_page_body_def
        py_slot_def Let_def)
  from q(1) ew(1) have j0: "j = 0"
    and fu2: "frames u2 = [\<lparr>dirty = True, page = 1, reference = 0\<rparr>]"
    by auto
  from q(3,4) j0 have qt: "clock_hand v = 0" "reference (frames v ! 0) = 0" by simp_all
  from q(6) have pu: "clock_pages u' = {2}" by simp
  have partT: "\<exists>i s2 s' t. find_removing_page ?T1 = Inr (i, s2) \<and> i = 0 \<and>
      inspected ?T1 = [0, 0] \<and> last (sweep_states ?T1) = t \<and>
      clock_hand t = 0 \<and> reference (frames t ! 0) = 0 \<and>
      frames s2 = [\<lparr>dirty = True, page = 1, reference = 0\<rparr>] \<and>
      clock_do (Read 2) ?T = Inr s' \<and> clock_pages s' = {2}"
    using q(1,2,5) j0 ew(2) qt fu2 pu by blast
  from a1 a2 partS b1 b2 partT show ?thesis unfolding eqS eqT by blast
qed

subsection \<open>Disk writes count the dirty frames removed\<close>

text \<open>
  C8. For each of the three policies built with a capacity of at least 1 and any sequence of
  accesses, a further access returns normally and adds one to \<open>disk_writes\<close> exactly when
  a frame that was resident before the access has its page no longer resident after it and
  was dirty; otherwise \<open>disk_writes\<close> is unchanged. For a sequence without a write
  access, \<open>get_total_disk_writes\<close> is 0 after every prefix.
\<close>

theorem disk_writes_count_dirty_evictions:
  assumes "1 \<le> c"
  shows "(\<exists>s s'. lru_run (lru_init c) as = Inr s \<and> lru_do a s = Inr s' \<and>
            get_total_disk_writes s' = get_total_disk_writes s +
              (if \<exists>v f. map_of (frames s) v = Some f \<and> v \<notin> lru_pages s' \<and> dirty f
               then 1 else 0)) \<and>
         (\<exists>s s'. clock_run (clock_init c) as = Inr s \<and> clock_do a s = Inr s' \<and>
            get_total_disk_writes s' = get_total_disk_writes s +
              (if \<exists>f\<in>set (frames s). page f \<notin> clock_pages s' \<and> dirty f then 1 else 0)) \<and>
         (\<exists>s s'. rand_run (rand_init c) ras = Inr s \<and> rand_do (d, a) s = Inr s' \<and>
            get_total_disk_writes s' = get_total_disk_writes s +
              (if \<exists>v f. map_of (frames s) v = Some f \<and> v \<notin> rand_pages s' \<and> dirty f
               then 1 else 0)) \<and>
         ((\<forall>x\<in>set bs. \<not> is_write_of x) \<longrightarrow>
            get_total_disk_writes (final (lru_run (lru_init c) (take n bs))) = 0 \<and>
            get_total_disk_writes (final (clock_run (clock_init c) (take n bs))) = 0) \<and>
         ((\<forall>x\<in>set rbs. \<not> is_write_of (snd x)) \<longrightarrow>
            get_total_disk_writes (final (rand_run (rand_init c) (take n rbs))) = 0)"
proof -
  from lru_reachable [OF assms, of as] obtain sl where
    sl: "lru_run (lru_init c) as = Inr sl" "lru_inv sl" "number_frames sl = c" by blast
  from lru_step_writes [OF sl(2), of "page_of a" "is_write_of a"] sl(1,3) assms
  have l: "\<exists>s s'. lru_run (lru_init c) as = Inr s \<and> lru_do a s = Inr s' \<and>
            get_total_disk_writes s' = get_total_disk_writes s +
              (if \<exists>v f. map_of (frames s) v = Some f \<and> v \<notin> lru_pages s' \<and> dirty f
               then 1 else 0)"
    unfolding lru_do_eq get_total_disk_writes_def by auto
  from clock_reachable [OF assms, of as] obtain sc where
    sc: "clock_run (clock_init c) as = Inr sc" "clock_inv sc" by blast
  from clock_step_writes [OF sc(2), of "page_of a" "is_write_of a"] sc(1)
  have k: "\<exists>s s'. clock_run (clock_init c) as = Inr s \<and> clock_do a s = Inr s' \<and>
            get_total_disk_writes s' = get_total_disk_writes s +
              (if \<exists>f\<in>set (frames s). page f \<notin> clock_pages s' \<and> dirty f then 1 else 0)"
    unfolding clock_do_eq get_total_disk_writes_def by auto
  from rand_reachable [OF assms, of ras] obtain sr where
    sr: "rand_run (rand_init c) ras = Inr sr" "rand_inv sr" "number_frames sr = c" by blast
  from rand_step_writes [OF sr(2), of d "page_of a" "is_write_of a"] sr(1,3) assms
  have r: "\<exists>s s'. rand_run (rand_init c) ras = Inr s \<and> rand_do (d, a) s = Inr s' \<and>
            get_total_disk_writes s' = get_total_disk_writes s +
              (if \<exists>v f. map_of (frames s) v = Some f \<and> v \<notin> rand_pages s' \<and> dirty f
               then 1 else 0)"
    unfolding rand_do_eq get_total_disk_writes_def by auto
  have nl: "get_total_disk_writes (final (lru_run (lru_init c) (take n bs))) = 0"
      "get_total_disk_writes (final (clock_run (clock_init c) (take n bs))) = 0"
    if "\<forall>x\<in>set bs. \<not> is_write_of x"
  proof -
    from that have "\<forall>x\<in>set (take n bs). \<not> is_write_of x" by (auto dest: in_set_takeD)
    then show "get_total_disk_writes (final (lru_run (lru_init c) (take n bs))) = 0"
      "get_total_disk_writes (final (clock_run (clock_init c) (take n bs))) = 0"
      by (simp_all add: get_total_disk_writes_def lru_no_writes clock_no_writes)
  qed
  have nr: "get_total_disk_writes (final (rand_run (rand_init c) (take n rbs))) = 0"
    if "\<forall>x\<in>set rbs. \<not> is_write_of (snd x)"
  proof -
    from that have "\<forall>x\<in>set (take n rbs). \<not> is_write_of (snd x)" by (auto dest: in_set_takeD)
    then show ?thesis by (simp add: get_total_disk_writes_def rand_no_writes)
  qed
  from l k r nl nr show ?thesis by blast
qed

theorem disk_writes_count_dirty_evictions_witness:
  "(1::int) \<le> 1 \<and>
   (\<exists>s s'. lru_run (lru_init 1) [Write 1] = Inr s \<and> lru_do (Read 2) s = Inr s' \<and>
      get_total_disk_writes s = 0 \<and> get_total_disk_writes s' = 1) \<and>
   (\<exists>s s'. clock_run (clock_init 1) [Write 1] = Inr s \<and> clock_do (Read 2) s = Inr s' \<and>
      get_total_disk_writes s = 0 \<and> get_total_disk_writes s' = 1) \<and>
   (\<exists>s s'. rand_run (rand_init 1) [(0, Write 1)] = Inr s \<and> rand_do (4, Read 2) s = Inr s' \<and>
      get_total_disk_writes s = 0 \<and> get_total_disk_writes s' = 1) \<and>
   get_total_disk_writes (final (lru_run (lru_init 1) (take 2 [Read 1, Read 2, Read 1]))) = 0 \<and>
   get_total_disk_writes (final (clock_run (clock_init 1) (take 2 [Read 1, Read 2, Read 1]))) = 0 \<and>
   get_total_disk_writes (final (rand_run (rand_init 1)
      (take 2 [(0, Read 1), (3, Read 2), (1, Read 1)]))) = 0"
proof -
  have h: "(1::int) \<le> 1" by simp
  have nw: "\<forall>x\<in>set [Read 1, Read 2, Read 1]. \<not> is_write_of x"
    "\<forall>x\<in>set [(0::nat, Read 1), (3, Read 2), (1, Read 1)]. \<not> is_write_of (snd x)"
    by simp_all
  have el: "lru_run (lru_init 1) [Write 1] =
      Inr \<lparr>number_frames = 1, frames = [(1, \<lparr>dirty = True, last_used = 1\<rparr>)],
           page_faults = 1, disk_reads = 1, disk_writes = 0, debug = False,
           recency_tracker = 1\<rparr>"
    by (simp add: lru_init_def lru_write_memory_def lru_access_memory_def lru_load_def Let_def)
  have ek: "clock_run (clock_init 1) [Write 1] =
      Inr \<lparr>number_frames = 1, frames = [\<lparr>dirty = True, page = 1, reference = 1\<rparr>],
           page_faults = 1, disk_reads = 1, disk_writes = 0, debug = False, clock_hand = 0\<rparr>"
    by (simp add: clock_init_def clock_write_memory_def clock_access_memory_def new_frame_def
        Let_def)
  have er: "rand_run (rand_init 1) [(0, Write 1)] =
      Inr \<lparr>number_frames = 1, frames = [(1, \<lparr>dirty = True\<rparr>)],
           page_faults = 1, disk_reads = 1, disk_writes = 0, debug = False\<rparr>"
    by (simp add: rand_init_def rand_write_memory_def rand_access_memory_def rand_load_def
        Let_def)
  note inst = disk_writes_count_dirty_evictions [OF h, of "[Write 1]" "Read 2" "[(0, Write 1)]" 4
      "[Read 1, Read 2, Read 1]" 2 "[(0, Read 1), (3, Read 2), (1, Read 1)]"]
  from inst obtain sl sl' where
    sl: "lru_run (lru_init 1) [Write 1] = Inr sl" "lru_do (Read 2) sl = Inr sl'"
      "get_total_disk_writes sl' = get_total_disk_writes sl +
        (if \<exists>v f. map_of (frames sl) v = Some f \<and> v \<notin> lru_pages sl' \<and> dirty f then 1 else 0)"
    by blast
  from sl(1) el have sl_eq: "sl = \<lparr>number_frames = 1,
      frames = [(1, \<lparr>dirty = True, last_used = 1\<rparr>)],
      page_faults = 1, disk_reads = 1, disk_writes = 0, debug = False, recency_tracker = 1\<rparr>"
    by simp
  from sl(2) have sl'_eq: "sl' = \<lparr>number_frames = 1,
      frames = [(2, \<lparr>dirty = False, last_used = 2\<rparr>)],
      page_faults = 2, disk_reads = 2, disk_writes = 1, debug = False, recency_tracker = 2\<rparr>"
    unfolding sl_eq
    by (simp add: lru_read_memory_def lru_access_memory_def lru_load_def
        lru_removing_page_def Let_def)
  have l: "\<exists>s s'. lru_run (lru_init 1) [Write 1] = Inr s \<and> lru_do (Read 2) s = Inr s' \<and>
      get_total_disk_writes s = 0 \<and> get_total_disk_writes s' = 1"
    using sl(1,2) sl_eq sl'_eq by (auto simp: get_total_disk_writes_def)
  from inst obtain sc sc' where
    sc: "clock_run (clock_init 1) [Write 1] = Inr sc" "clock_do (Read 2) sc = Inr sc'"
      "get_total_disk_writes sc' = get_total_disk_writes sc +
        (if \<exists>f\<in>set (frames sc). page f \<notin> clock_pages sc' \<and> dirty f then 1 else 0)"
    by blast
  from sc(1) ek have sc_eq: "sc = \<lparr>number_frames = 1,
      frames = [\<lparr>dirty = True, page = 1, reference = 1\<rparr>],
      page_faults = 1, disk_reads = 1, disk_writes = 0, debug = False, clock_hand = 0\<rparr>"
    by simp
  from sc(2) have sc'_eq: "sc' = \<lparr>number_frames = 1,
      frames = [\<lparr>dirty = False, page = 2, reference = 1\<rparr>],
      page_faults = 2, disk_reads = 2, disk_writes = 1, debug = False, clock_hand = 0\<rparr>"
    unfolding sc_eq
    by (simp add: clock_read_memory_def clock_access_memory_def new_frame_def Let_def
        find_removing_page.simps find_removing_page_body_def py_slot_def)
  have k: "\<exists>s s'. clock_run (clock_init 1) [Write 1] = Inr s \<and> clock_do (Read 2) s = Inr s' \<and>
      get_total_disk_writes s = 0 \<and> get_total_disk_writes s' = 1"
    using sc(1,2) sc_eq sc'_eq by (auto simp: get_total_disk_writes_def)
  from inst obtain sr sr' where
    sr: "rand_run (rand_init 1) [(0, Write 1)] = Inr sr" "rand_do (4, Read 2) sr = Inr sr'"
    by blast
  from sr(1) er have sr_eq: "sr = \<lparr>number_frames = 1, frames = [(1, \<lparr>dirty = True\<rparr>)],
      page_faults = 1, disk_reads = 1, disk_writes = 0, debug = False\<rparr>"
    by simp
  from sr(2) have sr'_eq: "sr' = \<lparr>number_frames = 1, frames = [(2, \<lparr>dirty = False\<rparr>)],
      page_faults = 2, disk_reads = 2, disk_writes = 1, debug = False\<rparr>"
    unfolding sr_eq
    by (simp add: rand_read_memory_def rand_access_memory_def rand_load_def
        random_choice_def Let_def)
  have r: "\<exists>s s'. rand_run (rand_init 1) [(0, Write 1)] = Inr s \<and>
      rand_do (4, Read 2) s = Inr s' \<and>
      get_total_disk_writes s = 0 \<and> get_total_disk_writes s' = 1"
    using sr(1,2) sr_eq sr'_eq by (auto simp: get_total_disk_writes_def)
  from inst nw h l k r show ?thesis by blast
qed

subsection \<open>Reading a resident clean page again\<close>

text \<open>
  C9. For each of the three policies and any state of the object: if page \<open>p\<close> is resident
  with its dirty flag off, then any number of read accesses to \<open>p\<close> return normally and
  leave \<open>get_total_disk_reads\<close>, \<open>get_total_disk_writes\<close> and
  \<open>get_total_page_faults\<close> unchanged, and \<open>p\<close> is still resident and clean.
\<close>

theorem clean_read_hits_keep_counters:
  "(map_of (frames sl) p = Some fl \<and> \<not> dirty fl \<longrightarrow>
      (\<exists>s' f'. lru_run sl (replicate n (Read p)) = Inr s' \<and>
         map_of (frames s') p = Some f' \<and> \<not> dirty f' \<and>
         get_total_disk_reads s' = get_total_disk_reads sl \<and>
         get_total_disk_writes s' = get_total_disk_writes sl \<and>
         get_total_page_faults s' = get_total_page_faults sl)) \<and>
   ((\<exists>f\<in>set (frames sc). page f = p \<and> \<not> dirty f) \<longrightarrow>
      (\<exists>s'. clock_run sc (replicate n (Read p)) = Inr s' \<and>
         (\<exists>f\<in>set (frames s'). page f = p \<and> \<not> dirty f) \<and>
         get_total_disk_reads s' = get_total_disk_reads sc \<and>
         get_total_disk_writes s' = get_total_disk_writes sc \<and>
         get_total_page_faults s' = get_total_page_faults sc)) \<and>
   (map_of (frames sr) p = Some fr \<and> \<not> dirty fr \<longrightarrow>
      (\<exists>s' f'. rand_run sr (map (\<lambda>d. (d, Read p)) ds) = Inr s' \<and>
         map_of (frames s') p = Some f' \<and> \<not> dirty f' \<and>
         get_total_disk_reads s' = get_total_disk_reads sr \<and>
         get_total_disk_writes s' = get_total_disk_writes sr \<and>
         get_total_page_faults s' = get_total_page_faults sr))"
  unfolding get_total_disk_reads_def get_total_disk_writes_def get_total_page_faults_def
  using lru_hit_clean_read [of sl p fl n] clock_hit_clean_read [of sc p n]
    rand_hit_clean_read [of sr p fr ds]
  by blast

theorem clean_read_hits_keep_counters_witness:
  "map_of (frames \<lparr>number_frames = 2, frames = [(1::int, \<lparr>dirty = False, last_used = 1\<rparr>)],
      page_faults = 1, disk_reads = 1, disk_writes = 0, debug = False,
      recency_tracker = 1\<rparr>) 1 = Some \<lparr>dirty = False, last_used = 1\<rparr> \<and>
   \<not> dirty \<lparr>dirty = False, last_used = 1::int\<rparr> \<and>
   page (hd (frames \<lparr>number_frames = 2,
      frames = [\<lparr>dirty = False, page = 1, reference = 1\<rparr>],
      page_faults = 1, disk_reads = 1, disk_writes = 0, debug = False, clock_hand = 0\<rparr>)) = 1 \<and>
   map_of (frames \<lparr>number_frames = 2, frames = [(1::int, \<lparr>dirty = False\<rparr>)],
      page_faults = 1, disk_reads = 1, disk_writes = 0, debug = False\<rparr>) 1
     = Some \<lparr>dirty = False\<rparr> \<and>
   \<not> dirty \<lparr>dirty = False\<rparr> \<and>
   (\<exists>s'. lru_run \<lparr>number_frames = 2, frames = [(1::int, \<lparr>dirty = False, last_used = 1\<rparr>)],
      page_faults = 1, disk_reads = 1, disk_writes = 0, debug = False,
      recency_tracker = 1\<rparr> (replicate 3 (Read 1)) = Inr s' \<and>
      get_total_disk_reads s' = 1 \<and> get_total_disk_writes s' = 0 \<and>
      get_total_page_faults s' = 1) \<and>
   (\<exists>s'. clock_run \<lparr>number_frames = 2,
      frames = [\<lparr>dirty = False, page = 1, reference = 1\<rparr>],
      page_faults = 1, disk_reads = 1, disk_writes = 0, debug = False, clock_hand = 0\<rparr>
      (replicate 3 (Read 1)) = Inr s' \<and>
      get_total_disk_reads s' = 1 \<and> get_total_disk_writes s' = 0 \<and>
      get_total_page_faults s' = 1) \<and>
   (\<exists>s'. rand_run \<lparr>number_frames = 2, frames = [(1::int, \<lparr>dirty = False\<rparr>)],
      page_faults = 1, disk_reads = 1, disk_writes = 0, debug = False\<rparr>
      (map (\<lambda>d. (d, Read 1)) [5, 0, 2]) = Inr s' \<and>
      get_total_disk_reads s' = 1 \<and> get_total_disk_writes s' = 0 \<and>
      get_total_page_faults s' = 1)"
proof -
  let ?sl = "\<lparr>number_frames = 2, frames = [(1, \<lparr>dirty = False, last_used = 1\<rparr>)],
      page_faults = 1, disk_reads = 1, disk_writes = 0, debug = False,
      recency_tracker = 1\<rparr> :: lru_mmu"
  let ?sc = "\<lparr>number_frames = 2,
      frames = [\<lparr>dirty = False, page = 1, reference = 1\<rparr>],
      page_faults = 1, disk_reads = 1, disk_writes = 0, debug = False, clock_hand = 0\<rparr>
      :: clock_mmu"
  let ?sr = "\<lparr>number_frames = 2, frames = [(1, \<lparr>dirty = False\<rparr>)],
      page_faults = 1, disk_reads = 1, disk_writes = 0, debug = False\<rparr> :: rand_mmu"
  have hl: "map_of (frames ?sl) 1 = Some \<lparr>dirty = False, last_used = 1\<rparr> \<and>
      \<not> dirty \<lparr>dirty = False, last_used = 1::int\<rparr>" by simp
  have hc: "\<exists>f\<in>set (frames ?sc). page f = 1 \<and> \<not> dirty f" by simp
  have hr: "map_of (frames ?sr) 1 = Some \<lparr>dirty = False\<rparr> \<and> \<not> dirty \<lparr>dirty = False\<rparr>"
    by simp
  have cl: "get_total_disk_reads ?sl = 1" "get_total_disk_writes ?sl = 0"
    "get_total_page_faults ?sl = 1"
    by (simp_all add: get_total_disk_reads_def get_total_disk_writes_def
        get_total_page_faults_def)
  have cc: "get_total_disk_reads ?sc = 1" "get_total_disk_writes ?sc = 0"
    "get_total_page_faults ?sc = 1"
    by (simp_all add: get_total_disk_reads_def get_total_disk_writes_def
        get_total_page_faults_def)
  have cr: "get_total_disk_reads ?sr = 1" "get_total_disk_writes ?sr = 0"
    "get_total_page_faults ?sr = 1"
    by (simp_all add: get_total_disk_reads_def get_total_disk_writes_def
        get_total_page_faults_def)
  note inst = clean_read_hits_keep_counters [of ?sl 1 "\<lparr>dirty = False, last_used = 1\<rparr>" 3
      ?sc ?sr "\<lparr>dirty = False\<rparr>" "[5, 0, 2]"]
  from inst hl have l: "\<exists>s'. lru_run ?sl (replicate 3 (Read 1)) = Inr s' \<and>
      get_total_disk_reads s' = 1 \<and> get_total_disk_writes s' = 0 \<and>
      get_total_page_faults s' = 1"
    unfolding cl by blast
  from inst hc have k: "\<exists>s'. clock_run ?sc (replicate 3 (Read 1)) = Inr s' \<and>
      get_total_disk_reads s' = 1 \<and> get_total_disk_writes s' = 0 \<and>
      get_total_page_faults s' = 1"
    unfolding cc by blast
  from inst hr have r: "\<exists>s'. rand_run ?sr (map (\<lambda>d. (d, Read 1)) [5, 0, 2]) = Inr s' \<and>
      get_total_disk_reads s' = 1 \<and> get_total_disk_writes s' = 0 \<and>
      get_total_page_faults s' = 1"
    unfolding cr by blast
  have hc': "page (hd (frames ?sc)) = 1" by simp
  from hl hc' hr l k r show ?thesis by blast
qed

end
